theory Spec2Isabelle
  imports
    Main
    "HOL-Library.Monad_Syntax"
    "HOL-Library.AList"
    "HOL-Library.List_Lexorder"
    "HOL-Library.Product_Lexorder"
begin

section \<open>Python values used by the timetable generator\<close>

text \<open>
  A Python \<open>str\<close> is a sequence of Unicode code points; the department-code rule of
  \<open>extract_all_dept_codes\<close> looks for the en dash (U+2013) and the em dash (U+2014),
  which are single code points, so a string is a list of code points. Lists of naturals
  are compared lexicographically, as Python compares strings.
\<close>

type_synonym pystr = "nat list"

definition ustr :: "string \<Rightarrow> pystr" where
  "ustr s = map of_char s"

text \<open>\<open>str.isspace\<close> for one code point: the white-space table of the Python runtime.\<close>

definition is_space :: "nat \<Rightarrow> bool" where
  "is_space c \<longleftrightarrow>
     (9 \<le> c \<and> c \<le> 13) \<or> (28 \<le> c \<and> c \<le> 32) \<or> c = 133 \<or> c = 160 \<or> c = 5760 \<or>
     (8192 \<le> c \<and> c \<le> 8202) \<or> c = 8232 \<or> c = 8233 \<or> c = 8239 \<or> c = 8287 \<or> c = 12288"

text \<open>\<open>s.strip()\<close>: leading and trailing white space removed.\<close>

definition py_strip :: "pystr \<Rightarrow> pystr" where
  "py_strip s = rev (dropWhile is_space (rev (dropWhile is_space s)))"

text \<open>
  \<open>s.lower()\<close>. On a string of Basic Latin code points it maps the letters A to Z and
  keeps the rest. On a string with a code point from 128 on the runtime lowers by the
  Unicode tables, not always code point by code point; there the result is left
  unspecified, so that every statement below holds whatever the runtime returns.
\<close>

definition py_lower :: "pystr \<Rightarrow> pystr" where
  "py_lower s =
     (if list_all (\<lambda>c. c < 128) s
      then map (\<lambda>c. if 65 \<le> c \<and> c \<le> 90 then c + 32 else c) s
      else undefined s)"

text \<open>\<open>s.split()\<close>: the maximal runs of non-white-space code points, in order.\<close>

fun split_ws :: "pystr \<Rightarrow> pystr \<Rightarrow> pystr list" where
  "split_ws cur [] = (if cur = [] then [] else [cur])"
| "split_ws cur (c # cs) =
     (if is_space c then (if cur = [] then split_ws [] cs else cur # split_ws [] cs)
      else split_ws (cur @ [c]) cs)"

definition py_split :: "pystr \<Rightarrow> pystr list" where
  "py_split s = split_ws [] s"

text \<open>\<open>s.split(sep, 1)\<close> for a separator of one code point.\<close>

definition py_split1 :: "nat \<Rightarrow> pystr \<Rightarrow> pystr list" where
  "py_split1 sep s =
     (if sep \<in> set s
      then [takeWhile (\<lambda>c. c \<noteq> sep) s, tl (dropWhile (\<lambda>c. c \<noteq> sep) s)]
      else [s])"

text \<open>\<open>xs[0]\<close>: raises IndexError on the empty list. A raised exception is \<open>None\<close>.\<close>

definition py_first :: "'a list \<Rightarrow> 'a option" where
  "py_first xs = (case xs of [] \<Rightarrow> None | x # _ \<Rightarrow> Some x)"

text \<open>\<open>xs.index(x)\<close>: the position of the first occurrence; raises ValueError when absent.\<close>

fun py_index :: "'a list \<Rightarrow> 'a \<Rightarrow> nat option" where
  "py_index [] x = None"
| "py_index (y # ys) x = (if y = x then Some 0 else map_option Suc (py_index ys x))"

text \<open>
  A field of a JSON object: the key may be absent, or present with \<open>null\<close>, or present
  with a value. A value that may be \<open>None\<close> (a dictionary key, say) is an \<open>option\<close>.
\<close>

datatype 'a field = Absent | Null | Val 'a

type_synonym pykey = "pystr option"

text \<open>\<open>d[key]\<close>: raises KeyError when the key is absent.\<close>

definition item :: "'a field \<Rightarrow> 'a option option" where
  "item f = (case f of Absent \<Rightarrow> None | Null \<Rightarrow> Some None | Val v \<Rightarrow> Some (Some v))"

text \<open>\<open>d.get(key, default)\<close>: the default stands in for an absent key only.\<close>

definition get_default :: "'a field \<Rightarrow> 'a \<Rightarrow> 'a option" where
  "get_default f d = (case f of Absent \<Rightarrow> Some d | Null \<Rightarrow> None | Val v \<Rightarrow> Some v)"

definition present :: "'a option \<Rightarrow> 'a field" where
  "present v = (case v of None \<Rightarrow> Null | Some x \<Rightarrow> Val x)"

section \<open>Data model\<close>

text \<open>
  Teachers, subjects and classrooms as the request carries them. \<open>t_subjects\<close> is
  \<open>t.get('subjects') or []\<close>, \<open>t_availability\<close> the items of \<open>teacher.get('availability', {})\<close>
  (a dictionary has each day once), \<open>s_departments\<close> is \<open>subject.get('departments') or []\<close>.
\<close>

record teacher =
  t_name :: pystr
  t_subjects :: "pystr list"
  t_availability :: "(pystr \<times> pystr list) list"

record subject =
  s_name :: pystr
  s_semester :: "pystr field"
  s_departments :: "pystr list"
  s_sessions_per_week :: "int field"

text \<open>
  A timetable entry. The generator writes every key; an entry list handed to
  \<open>detect_conflicts\<close> from outside may lack keys or carry \<open>null\<close>.
\<close>

record entry =
  e_day :: "pystr field"
  e_time_slot :: "pystr field"
  e_subject :: "pystr field"
  e_teacher :: "pystr field"
  e_semester :: "pystr field"
  e_classrooms :: "pystr list field"
  e_department_codes :: "pystr list"

text \<open>
  Conflict records. The three collision kinds carry the offending key, the day, the slot
  and the subjects of the group; \<open>Shortfall\<close> is the record appended by the placement loop
  (\<open>type = student\<close>, semester, \<open>subjects = [name]\<close>, \<open>missing_sessions\<close>, suggestions,
  reasons, day and slot \<open>None\<close>); \<open>Validation\<close> is the record of the final recount
  (semester, name, \<open>missing_sessions\<close>, \<open>validation = True\<close>).
\<close>

datatype conflict =
    TeacherConflict pykey pykey pykey "pykey list"
  | ClassroomConflict pystr pykey pykey "pykey list"
  | StudentConflict pykey pykey pykey "pykey list"
  | Shortfall pykey pystr int "pystr list" "pystr list"
  | Validation pykey pystr int

record generator =
  teachers :: "teacher list"
  subjects :: "subject list"
  classrooms :: "pystr list"
  time_slots :: "pystr list"
  days :: "pystr list"
  semesters :: "pystr list"
  timetable :: "entry list"
  conflicts :: "conflict list"

text \<open>
  A \<open>dict\<close> is the list of its items in insertion order: \<open>map_of\<close> reads a key,
  \<open>AList.update k v\<close> is \<open>d[k] = v\<close> (the value replaced in place for a key that is there,
  the item appended otherwise). The busy grids are \<open>{key: {day: {slot: False}}}\<close>.
  The variables local to one call of \<open>generate\<close>:
\<close>

type_synonym ('k, 'v) dict = "('k \<times> 'v) list"

type_synonym 'k grid = "('k, (pystr, (pystr, bool) dict) dict) dict"

record locals =
  subject_to_teachers :: "(pystr, teacher list) dict"
  days_order :: "pystr list"
  slots_order :: "pystr list"
  teacher_schedule :: "pystr grid"
  classroom_schedule :: "pystr grid"
  cohort_schedule :: "pykey grid"
  cohort_load :: "(pykey, (pystr, nat) dict) dict"

definition General :: pystr where
  "General = ustr ''General''"

text \<open>\<open>subject.get('semester', 'General')\<close>\<close>

definition semester_of :: "subject \<Rightarrow> pykey" where
  "semester_of subject = get_default (s_semester subject) General"

text \<open>\<open>int(subject.get('sessions_per_week', 2) or 0)\<close>\<close>

definition sessions_required :: "subject \<Rightarrow> int" where
  "sessions_required subject =
     (case get_default (s_sessions_per_week subject) 2 of
        None \<Rightarrow> 0
      | Some n \<Rightarrow> (if n \<noteq> 0 then n else 0))"

section \<open>Availability and the busy grids\<close>

definition is_teacher_available :: "teacher \<Rightarrow> pystr \<Rightarrow> pystr \<Rightarrow> bool" where
  "is_teacher_available teacher day time_slot =
     (let availability = t_availability teacher in
      if availability = [] then True
      else (case map_of availability day of
              None \<Rightarrow> False
            | Some slots \<Rightarrow> time_slot \<in> set slots))"

text \<open>The dictionary comprehension \<open>{k: f(k) for k in keys}\<close>.\<close>

definition dict_comp :: "'k list \<Rightarrow> ('k \<Rightarrow> 'v) \<Rightarrow> ('k, 'v) dict" where
  "dict_comp keys f = fold (\<lambda>k m. AList.update k (f k) m) keys []"

text \<open>\<open>{k: {day: {slot: False for slot in ss} for day in ds} for k in keys}\<close>\<close>

definition new_grid :: "'k list \<Rightarrow> pystr list \<Rightarrow> pystr list \<Rightarrow> 'k grid" where
  "new_grid keys ds ss =
     dict_comp keys (\<lambda>k. dict_comp ds (\<lambda>day. dict_comp ss (\<lambda>slot. False)))"

text \<open>\<open>grid.get(k, {}).get(day, {}).get(slot)\<close>, read as a condition.\<close>

definition grid_get :: "'k grid \<Rightarrow> 'k \<Rightarrow> pystr \<Rightarrow> pystr \<Rightarrow> bool" where
  "grid_get g k day slot =
     (case map_of g k of
        None \<Rightarrow> False
      | Some dm \<Rightarrow> (case map_of dm day of
                     None \<Rightarrow> False
                   | Some sm \<Rightarrow> (case map_of sm slot of None \<Rightarrow> False | Some b \<Rightarrow> b)))"

text \<open>\<open>grid[k][day][slot]\<close>: KeyError on a missing key.\<close>

definition grid_item :: "'k grid \<Rightarrow> 'k \<Rightarrow> pystr \<Rightarrow> pystr \<Rightarrow> bool option" where
  "grid_item g k day slot = do { dm \<leftarrow> map_of g k; sm \<leftarrow> map_of dm day; map_of sm slot }"

text \<open>\<open>grid[k][day][slot] = True\<close>: KeyError when \<open>k\<close> or \<open>day\<close> is missing.\<close>

definition grid_mark :: "'k grid \<Rightarrow> 'k \<Rightarrow> pystr \<Rightarrow> pystr \<Rightarrow> 'k grid option" where
  "grid_mark g k day slot =
     do {
       dm \<leftarrow> map_of g k;
       sm \<leftarrow> map_of dm day;
       Some (AList.update k (AList.update day (AList.update slot True sm) dm) g)
     }"

definition can_place ::
  "locals \<Rightarrow> subject \<Rightarrow> teacher \<Rightarrow> pystr \<Rightarrow> pystr \<Rightarrow> pystr \<Rightarrow> bool" where
  "can_place L subject teacher classroom day slot =
     (let semester = semester_of subject in
      if grid_get (teacher_schedule L) (t_name teacher) day slot then False
      else if grid_get (classroom_schedule L) classroom day slot then False
      else if grid_get (cohort_schedule L) semester day slot then False
      else if \<not> is_teacher_available teacher day slot then False
      else True)"

section \<open>Department codes\<close>

definition separators :: "nat list" where
  "separators = [8211, 8212, 45]"

text \<open>
  The loop \<open>for sep in [en dash, em dash, '-']\<close> with its \<open>break\<close>. The result is the value
  of \<open>code\<close> after the loop (\<open>None\<close> inside when no separator occurs).
\<close>

fun find_code :: "nat list \<Rightarrow> pystr \<Rightarrow> pystr option option" where
  "find_code [] raw = Some None"
| "find_code (sep # seps) raw =
     (if sep \<in> set raw then
        do {
          token \<leftarrow> map_option py_strip (py_first (py_split1 sep raw));
          code \<leftarrow> (if token \<noteq> [] then Some token
                   else map_option py_strip (py_first (py_split1 sep raw)));
          Some (Some code)
        }
      else find_code seps raw)"

fun codes_loop :: "pystr list \<Rightarrow> pystr list \<Rightarrow> pystr list option" where
  "codes_loop [] codes = Some codes"
| "codes_loop (d # ds) codes =
     (let raw = py_strip d in
      if raw = [] then codes_loop ds codes
      else do {
        code0 \<leftarrow> find_code separators raw;
        code \<leftarrow> (case code0 of None \<Rightarrow> py_first (py_split raw) | Some c \<Rightarrow> Some c);
        codes_loop ds (if code \<noteq> [] then codes @ [code] else codes)
      })"

text \<open>The loop that keeps the first occurrence of each item (\<open>seen\<close>, \<open>uniq\<close>).\<close>

fun uniq_loop :: "'a list \<Rightarrow> 'a set \<Rightarrow> 'a list \<Rightarrow> 'a list" where
  "uniq_loop [] seen uniq = uniq"
| "uniq_loop (c # cs) seen uniq =
     (if c \<notin> seen then uniq_loop cs (insert c seen) (uniq @ [c])
      else uniq_loop cs seen uniq)"

text \<open>The body runs under \<open>try\<close>; \<open>except Exception\<close> returns the empty list.\<close>

definition extract_all_dept_codes :: "subject \<Rightarrow> pystr list" where
  "extract_all_dept_codes subject =
     (let depts = s_departments subject in
      case (if depts = [] then Some []
            else do { codes \<leftarrow> codes_loop depts []; Some (uniq_loop codes {} []) }) of
        None \<Rightarrow> []
      | Some uniq \<Rightarrow> uniq)"

section \<open>Committing an entry\<close>

text \<open>
  \<open>cohort_load.setdefault(semester, {}).setdefault(day, 0)\<close> followed by
  \<open>cohort_load[semester][day] += 1\<close>.
\<close>

definition bump_load ::
  "(pykey, (pystr, nat) dict) dict \<Rightarrow> pykey \<Rightarrow> pystr \<Rightarrow> (pykey, (pystr, nat) dict) dict" where
  "bump_load cl semester day =
     (let inner = (case map_of cl semester of None \<Rightarrow> [] | Some m \<Rightarrow> m);
          n = (case map_of inner day of None \<Rightarrow> 0 | Some n \<Rightarrow> n)
      in AList.update semester (AList.update day (n + 1) inner) cl)"

definition place_entry ::
  "generator \<Rightarrow> locals \<Rightarrow> subject \<Rightarrow> teacher \<Rightarrow> pystr \<Rightarrow> pystr \<Rightarrow> pystr \<Rightarrow>
   (generator \<times> locals) option" where
  "place_entry self L subject teacher classroom day slot =
     (let semester = semester_of subject;
          entry = \<lparr> e_day = Val day, e_time_slot = Val slot, e_subject = Val (s_name subject),
                    e_teacher = Val (t_name teacher), e_semester = present semester,
                    e_classrooms = Val [classroom],
                    e_department_codes = extract_all_dept_codes subject \<rparr>;
          self' = self\<lparr>timetable := timetable self @ [entry]\<rparr>
      in do {
        ts \<leftarrow> grid_mark (teacher_schedule L) (t_name teacher) day slot;
        cs \<leftarrow> grid_mark (classroom_schedule L) classroom day slot;
        hs \<leftarrow> grid_mark (cohort_schedule L) semester day slot;
        Some (self', L\<lparr>teacher_schedule := ts, classroom_schedule := cs,
                       cohort_schedule := hs,
                       cohort_load := bump_load (cohort_load L) semester day\<rparr>)
      })"

section \<open>Ranking and enumerating candidates\<close>

text \<open>The index \<open>subject_to_teachers\<close>: \<open>setdefault(key, []).append(t)\<close> per listed subject.\<close>

fun index_subjects ::
  "teacher \<Rightarrow> pystr list \<Rightarrow> (pystr, teacher list) dict \<Rightarrow> (pystr, teacher list) dict" where
  "index_subjects t [] m = m"
| "index_subjects t (s # ss) m =
     (let key = py_lower (py_strip s) in
      if key = [] then index_subjects t ss m
      else index_subjects t ss
             (AList.update key ((case map_of m key of None \<Rightarrow> [] | Some ts \<Rightarrow> ts) @ [t]) m))"

fun index_teachers ::
  "teacher list \<Rightarrow> (pystr, teacher list) dict \<Rightarrow> (pystr, teacher list) dict" where
  "index_teachers [] m = m"
| "index_teachers (t # ts) m = index_teachers ts (index_subjects t (t_subjects t) m)"

text \<open>\<open>cohort_load.get(cohort, {}).get(day, 0)\<close>\<close>

definition load_get :: "(pykey, (pystr, nat) dict) dict \<Rightarrow> pykey \<Rightarrow> pystr \<Rightarrow> nat" where
  "load_get cl cohort day =
     (case map_of cl cohort of
        None \<Rightarrow> 0
      | Some m \<Rightarrow> (case map_of m day of None \<Rightarrow> 0 | Some n \<Rightarrow> n))"

definition rank_slots ::
  "(pykey, (pystr, nat) dict) dict \<Rightarrow> pystr \<Rightarrow> pystr \<Rightarrow> pykey \<Rightarrow> int" where
  "rank_slots cl day slot cohort =
     (let day_load = load_get cl cohort day;
          contiguous_bonus = 0;
          score = int day_load * 10 - contiguous_bonus
      in score)"

text \<open>
  A loop that collects what each round appends; an exception in any round is the
  exception of the loop.
\<close>

definition for_each :: "'a list \<Rightarrow> ('a \<Rightarrow> 'b list option) \<Rightarrow> 'b list option" where
  "for_each xs f = map_option concat (those (map f xs))"

text \<open>
  \<open>list.sort(key=...)\<close> computes the key of every item, then sorts stably on the keys;
  the key of the ranking calls \<open>index\<close>.
\<close>

definition rank_slots_for_semester :: "locals \<Rightarrow> pykey \<Rightarrow> (pystr \<times> pystr) list option" where
  "rank_slots_for_semester L semester =
     (let ranked =
            concat (map (\<lambda>day.
              let load = load_get (cohort_load L) semester day in
              map (\<lambda>slot.
                    (rank_slots (cohort_load L) day slot semester + int load * 10, day, slot))
                  (slots_order L))
              (days_order L))
      in do {
        keyed \<leftarrow> those (map (\<lambda>(score, day, slot).
                   do {
                     di \<leftarrow> py_index (days_order L) day;
                     si \<leftarrow> py_index (slots_order L) slot;
                     Some ((score, di, si), (day, slot))
                   }) ranked);
        Some (map snd (sort_key fst keyed))
      })"

text \<open>
  \<open>sum(1 for d in days_order for s in slots_order if teacher_schedule[t['name']][d][s])\<close>
\<close>

definition teacher_load :: "locals \<Rightarrow> teacher \<Rightarrow> nat option" where
  "teacher_load L t =
     do {
       cells \<leftarrow> those (map (\<lambda>(d, s). grid_item (teacher_schedule L) (t_name t) d s)
                          (List.product (days_order L) (slots_order L)));
       Some (length (filter (\<lambda>b. b) cells))
     }"

type_synonym candidate = "pystr \<times> pystr \<times> teacher \<times> pystr"

definition teachers_for :: "locals \<Rightarrow> subject \<Rightarrow> teacher list" where
  "teachers_for L subject =
     (let subject_key = py_lower (py_strip (s_name subject)) in
      case map_of (subject_to_teachers L) subject_key of None \<Rightarrow> [] | Some ts \<Rightarrow> ts)"

definition all_candidate_assignments ::
  "generator \<Rightarrow> locals \<Rightarrow> subject \<Rightarrow> candidate list option" where
  "all_candidate_assignments self L subject =
     (let semester = semester_of subject;
          teachers_for_subject = teachers_for L subject
      in if teachers_for_subject = [] then Some []
         else do {
           ranked \<leftarrow> rank_slots_for_semester L semester;
           candidates \<leftarrow>
             for_each ranked (\<lambda>(day, slot).
               for_each teachers_for_subject (\<lambda>t.
                 if \<not> is_teacher_available t day slot then Some []
                 else for_each (classrooms self) (\<lambda>c.
                   if can_place L subject t c day slot then
                     do {
                       t_load \<leftarrow> teacher_load L t;
                       di \<leftarrow> py_index (days_order L) day;
                       si \<leftarrow> py_index (slots_order L) slot;
                       Some [(t_load, di, si, day, slot, t, c)]
                     }
                   else Some [])));
           Some (map (\<lambda>(t_load, di, si, day, slot, t, c). (day, slot, t, c))
                  (sort_key (\<lambda>(t_load, di, si, day, slot, t, c).
                               (t_load, di, si, py_lower (t_name t), c)) candidates))
         })"

section \<open>The two placement passes\<close>

record pstate =
  ps_self :: generator
  ps_locals :: locals
  placed :: int
  used_positions :: "(pystr \<times> pystr) set"
  used_days :: "pystr set"

text \<open>
  What the head of the first loop decides for a candidate: \<open>break\<close>, \<open>continue\<close>, or go on
  to the \<open>can_place\<close> check.
\<close>

datatype action = Break | Continue | Attempt

definition pass1_action :: "int \<Rightarrow> pystr set \<Rightarrow> pstate \<Rightarrow> pystr \<Rightarrow> pystr \<Rightarrow> action" where
  "pass1_action required feasible_days st day slot =
     (if placed st \<ge> required then Break
      else if (day, slot) \<in> used_positions st then Continue
      else if int (card feasible_days) \<ge> required \<and> day \<in> used_days st then Continue
      else Attempt)"

fun pass1 ::
  "subject \<Rightarrow> int \<Rightarrow> pystr set \<Rightarrow> candidate list \<Rightarrow> pstate \<Rightarrow> pstate option" where
  "pass1 subject required feasible_days [] st = Some st"
| "pass1 subject required feasible_days ((day, slot, teacher, classroom) # rest) st =
     (case pass1_action required feasible_days st day slot of
        Break \<Rightarrow> Some st
      | Continue \<Rightarrow> pass1 subject required feasible_days rest st
      | Attempt \<Rightarrow>
          if can_place (ps_locals st) subject teacher classroom day slot then
            do {
              (self', L') \<leftarrow>
                place_entry (ps_self st) (ps_locals st) subject teacher classroom day slot;
              pass1 subject required feasible_days rest
                (st\<lparr>ps_self := self', ps_locals := L',
                    used_positions := insert (day, slot) (used_positions st),
                    used_days := insert day (used_days st),
                    placed := placed st + 1\<rparr>)
            }
          else pass1 subject required feasible_days rest st)"

fun pass2 :: "subject \<Rightarrow> int \<Rightarrow> candidate list \<Rightarrow> pstate \<Rightarrow> pstate option" where
  "pass2 subject required [] st = Some st"
| "pass2 subject required ((day, slot, teacher, classroom) # rest) st =
     (if placed st \<ge> required then Some st
      else if can_place (ps_locals st) subject teacher classroom day slot then
        do {
          (self', L') \<leftarrow>
            place_entry (ps_self st) (ps_locals st) subject teacher classroom day slot;
          pass2 subject required rest
            (st\<lparr>ps_self := self', ps_locals := L', placed := placed st + 1\<rparr>)
        }
      else pass2 subject required rest st)"

section \<open>Reasons and suggestions for a shortfall\<close>

text \<open>\<open>any(f(x) for x in xs)\<close> stops at the first true item.\<close>

fun py_any :: "('a \<Rightarrow> bool option) \<Rightarrow> 'a list \<Rightarrow> bool option" where
  "py_any f [] = Some False"
| "py_any f (x # xs) = do { b \<leftarrow> f x; if b then Some True else py_any f xs }"

text \<open>\<open>[x for x in xs if f(x)]\<close>\<close>

fun py_filter :: "('a \<Rightarrow> bool option) \<Rightarrow> 'a list \<Rightarrow> 'a list option" where
  "py_filter f [] = Some []"
| "py_filter f (x # xs) =
     do { b \<leftarrow> f x; ys \<leftarrow> py_filter f xs; Some (if b then x # ys else ys) }"

text \<open>
  \<open>self.is_teacher_available(t, day, slot) and not teacher_schedule[t['name']][day][slot]\<close>
\<close>

definition teacher_free :: "locals \<Rightarrow> pystr \<Rightarrow> pystr \<Rightarrow> teacher \<Rightarrow> bool option" where
  "teacher_free L day slot t =
     (if is_teacher_available t day slot
      then map_option Not (grid_item (teacher_schedule L) (t_name t) day slot)
      else Some False)"

definition classroom_free :: "locals \<Rightarrow> pystr \<Rightarrow> pystr \<Rightarrow> pystr \<Rightarrow> bool option" where
  "classroom_free L day slot c = map_option Not (grid_item (classroom_schedule L) c day slot)"

definition reasons_at ::
  "generator \<Rightarrow> locals \<Rightarrow> subject \<Rightarrow> teacher list \<Rightarrow> pystr \<Rightarrow> pystr \<Rightarrow> pystr list option" where
  "reasons_at self L subject teachers_for_subject day slot =
     do {
       any_teacher_free \<leftarrow> py_any (teacher_free L day slot) teachers_for_subject;
       any_class_free \<leftarrow> py_any (classroom_free L day slot) (classrooms self);
       cohort_busy \<leftarrow> grid_item (cohort_schedule L) (semester_of subject) day slot;
       Some ((if \<not> any_teacher_free
              then [ustr ''No available teacher at '' @ day @ ustr '' '' @ slot] else []) @
             (if \<not> any_class_free
              then [ustr ''No available classroom at '' @ day @ ustr '' '' @ slot] else []) @
             (if cohort_busy
              then [ustr ''Semester busy at '' @ day @ ustr '' '' @ slot] else []))
     }"

definition build_reasons ::
  "generator \<Rightarrow> locals \<Rightarrow> subject \<Rightarrow> teacher list \<Rightarrow> pystr list option" where
  "build_reasons self L subject teachers_for_subject =
     (if teachers_for_subject = [] then Some [ustr ''No teacher associated with subject'']
      else do {
        reasons \<leftarrow>
          for_each (days_order L) (\<lambda>day.
            for_each (slots_order L) (\<lambda>slot.
              reasons_at self L subject teachers_for_subject day slot));
        Some (uniq_loop reasons {} [])
      })"

text \<open>The inner loop over the slots of one day, with its \<open>continue\<close> and its \<open>break\<close>.\<close>

fun suggest_slots ::
  "generator \<Rightarrow> locals \<Rightarrow> subject \<Rightarrow> teacher list \<Rightarrow> pystr \<Rightarrow> pystr list \<Rightarrow> pystr list \<Rightarrow>
   pystr list option" where
  "suggest_slots self L subject tfs day [] suggestions = Some suggestions"
| "suggest_slots self L subject tfs day (slot # rest) suggestions =
     do {
       cohort_busy \<leftarrow> grid_item (cohort_schedule L) (semester_of subject) day slot;
       if cohort_busy then suggest_slots self L subject tfs day rest suggestions
       else do {
         free_teachers \<leftarrow> py_filter (teacher_free L day slot) tfs;
         free_classes \<leftarrow> py_filter (classroom_free L day slot) (classrooms self);
         let suggestions' =
               (if free_teachers \<noteq> [] \<and> free_classes \<noteq> []
                then suggestions @ [day @ ustr '' @ '' @ slot] else suggestions);
         if length suggestions' \<ge> 5 then Some suggestions'
         else suggest_slots self L subject tfs day rest suggestions'
       }
     }"

fun suggest_days ::
  "generator \<Rightarrow> locals \<Rightarrow> subject \<Rightarrow> teacher list \<Rightarrow> pystr list \<Rightarrow> pystr list \<Rightarrow>
   pystr list option" where
  "suggest_days self L subject tfs [] suggestions = Some suggestions"
| "suggest_days self L subject tfs (day # rest) suggestions =
     do {
       suggestions' \<leftarrow> suggest_slots self L subject tfs day (slots_order L) suggestions;
       if length suggestions' \<ge> 5 then Some suggestions'
       else suggest_days self L subject tfs rest suggestions'
     }"

section \<open>One subject, and the loop over the subjects\<close>

definition process_subject ::
  "generator \<Rightarrow> locals \<Rightarrow> subject \<Rightarrow> (generator \<times> locals) option" where
  "process_subject self L subject =
     (let required = sessions_required subject in
      do {
        feasible \<leftarrow> all_candidate_assignments self L subject;
        let feasible_days = set (map (\<lambda>(d, s, t, c). d) feasible);
        st1 \<leftarrow> pass1 subject required feasible_days feasible
                 \<lparr>ps_self = self, ps_locals = L, placed = 0,
                  used_positions = {}, used_days = {}\<rparr>;
        st2 \<leftarrow> (if placed st1 < required then pass2 subject required feasible st1
                else Some st1);
        if placed st2 < required then
          do {
            let missing = required - placed st2;
            let teachers_for_subject = teachers_for (ps_locals st2) subject;
            reasons \<leftarrow> build_reasons (ps_self st2) (ps_locals st2) subject teachers_for_subject;
            suggestions \<leftarrow> suggest_days (ps_self st2) (ps_locals st2) subject
                              teachers_for_subject (days_order (ps_locals st2)) [];
            Some ((ps_self st2)\<lparr>conflicts := conflicts (ps_self st2) @
                     [Shortfall (semester_of subject) (s_name subject) missing
                        suggestions reasons]\<rparr>,
                  ps_locals st2)
          }
        else Some (ps_self st2, ps_locals st2)
      })"

fun subjects_loop ::
  "subject list \<Rightarrow> generator \<Rightarrow> locals \<Rightarrow> (generator \<times> locals) option" where
  "subjects_loop [] self L = Some (self, L)"
| "subjects_loop (subject # rest) self L =
     do { (self', L') \<leftarrow> process_subject self L subject; subjects_loop rest self' L' }"

section \<open>The conflict detector\<close>

text \<open>\<open>d.setdefault(k, []).append(v)\<close>, on the items of \<open>d\<close>:\<close>

fun setdefault_append :: "'k \<Rightarrow> 'v \<Rightarrow> ('k \<times> 'v list) list \<Rightarrow> ('k \<times> 'v list) list" where
  "setdefault_append k v [] = [(k, [v])]"
| "setdefault_append k v ((k', vs) # m) =
     (if k = k' then (k', vs @ [v]) # m else (k', vs) # setdefault_append k v m)"

fun index_entries ::
  "entry list \<Rightarrow> ((pykey \<times> pykey) \<times> entry list) list \<Rightarrow>
   ((pykey \<times> pykey) \<times> entry list) list option" where
  "index_entries [] indexed = Some indexed"
| "index_entries (e # es) indexed =
     do {
       day \<leftarrow> item (e_day e);
       slot \<leftarrow> item (e_time_slot e);
       index_entries es (setdefault_append (day, slot) e indexed)
     }"

text \<open>\<open>for c in (e.get('classrooms') or [])\<close>\<close>

definition classrooms_of :: "entry \<Rightarrow> pystr list" where
  "classrooms_of e = (case e_classrooms e of Val cs \<Rightarrow> cs | _ \<Rightarrow> [])"

fun explode_classrooms ::
  "pystr list \<Rightarrow> entry \<Rightarrow> (pystr \<times> entry list) list \<Rightarrow> (pystr \<times> entry list) list" where
  "explode_classrooms [] e m = m"
| "explode_classrooms (c # cs) e m = explode_classrooms cs e (setdefault_append c e m)"

type_synonym group_maps =
  "(pykey \<times> entry list) list \<times> (pystr \<times> entry list) list \<times> (pykey \<times> entry list) list"

fun group_entries :: "entry list \<Rightarrow> group_maps \<Rightarrow> group_maps option" where
  "group_entries [] maps = Some maps"
| "group_entries (e # es) (teacher_map, classroom_map, cohort_map) =
     do {
       t \<leftarrow> item (e_teacher e);
       group_entries es
         (setdefault_append t e teacher_map,
          explode_classrooms (classrooms_of e) e classroom_map,
          setdefault_append (get_default (e_semester e) General) e cohort_map)
     }"

text \<open>\<open>[x['subject'] for x in arr]\<close>\<close>

definition subjects_of :: "entry list \<Rightarrow> pykey list option" where
  "subjects_of arr = those (map (\<lambda>x. item (e_subject x)) arr)"

text \<open>One of the three loops \<open>for k, arr in m.items(): if len(arr) > 1: conflicts.append(...)\<close>.\<close>

fun collisions ::
  "('k \<Rightarrow> pykey list \<Rightarrow> conflict) \<Rightarrow> ('k \<times> entry list) list \<Rightarrow> conflict list option" where
  "collisions mk [] = Some []"
| "collisions mk ((k, arr) # rest) =
     do {
       here \<leftarrow> (if length arr > 1 then do { ss \<leftarrow> subjects_of arr; Some [mk k ss] }
                else Some []);
       more \<leftarrow> collisions mk rest;
       Some (here @ more)
     }"

definition scan_group :: "(pykey \<times> pykey) \<times> entry list \<Rightarrow> conflict list option" where
  "scan_group g =
     (case g of ((day, slot), entries) \<Rightarrow>
        do {
          (teacher_map, classroom_map, cohort_map) \<leftarrow> group_entries entries ([], [], []);
          tc \<leftarrow> collisions (\<lambda>t. TeacherConflict t day slot) teacher_map;
          cc \<leftarrow> collisions (\<lambda>c. ClassroomConflict c day slot) classroom_map;
          sc \<leftarrow> collisions (\<lambda>cohort. StudentConflict cohort day slot) cohort_map;
          Some (tc @ cc @ sc)
        })"

text \<open>The list \<open>conflicts\<close> that \<open>detect_conflicts\<close> builds from \<open>self.timetable\<close>.\<close>

definition scan_conflicts :: "entry list \<Rightarrow> conflict list option" where
  "scan_conflicts tt = do { indexed \<leftarrow> index_entries tt []; for_each indexed scan_group }"

definition detect_conflicts :: "generator \<Rightarrow> generator option" where
  "detect_conflicts self =
     do {
       found \<leftarrow> scan_conflicts (timetable self);
       Some (self\<lparr>conflicts := conflicts self @ found\<rparr>)
     }"

section \<open>The recount and \<open>generate\<close>\<close>

fun count_occurrences ::
  "entry list \<Rightarrow> (pykey \<times> pykey, nat) dict \<Rightarrow> (pykey \<times> pykey, nat) dict option" where
  "count_occurrences [] occurrences = Some occurrences"
| "count_occurrences (e # es) occurrences =
     do {
       subj \<leftarrow> item (e_subject e);
       let key = (subj, get_default (e_semester e) General);
       count_occurrences es
         (AList.update key ((case map_of occurrences key of None \<Rightarrow> 0 | Some n \<Rightarrow> n) + 1)
            occurrences)
     }"

fun validate_subjects ::
  "subject list \<Rightarrow> (pykey \<times> pykey, nat) dict \<Rightarrow> generator \<Rightarrow> generator" where
  "validate_subjects [] occurrences self = self"
| "validate_subjects (subject # rest) occurrences self =
     (let required = sessions_required subject;
          key = (Some (s_name subject), semester_of subject);
          count = int (case map_of occurrences key of None \<Rightarrow> 0 | Some n \<Rightarrow> n)
      in if count < required then
           validate_subjects rest occurrences
             (self\<lparr>conflicts := conflicts self @
                [Validation (semester_of subject) (s_name subject) (required - count)]\<rparr>)
         else validate_subjects rest occurrences self)"

text \<open>
  \<open>set([s.get('semester', 'General') for s in self.subjects]) or {'General'}\<close>: the cohorts
  of the subjects. The runtime iterates a set in an order of its own choosing; \<open>cohorts\<close>
  lists the set in one order, and \<open>init_locals_in\<close> and \<open>generate_in\<close> take the order of the
  iteration as their first argument.
\<close>

definition cohorts :: "subject list \<Rightarrow> pykey list" where
  "cohorts ss = (let found = remdups (map semester_of ss) in
                 if found = [] then [Some General] else found)"

record result =
  r_timetable :: "entry list"
  r_conflicts :: "conflict list"

text \<open>The local variables as \<open>generate\<close> initialises them.\<close>

definition init_locals_in :: "pykey list \<Rightarrow> generator \<Rightarrow> locals" where
  "init_locals_in order self =
     (let days_order = days self; slots_order = time_slots self in
      \<lparr> subject_to_teachers = index_teachers (teachers self) [],
        days_order = days_order,
        slots_order = slots_order,
        teacher_schedule = new_grid (map t_name (teachers self)) days_order slots_order,
        classroom_schedule = new_grid (classrooms self) days_order slots_order,
        cohort_schedule = new_grid order days_order slots_order,
        cohort_load = [] \<rparr>)"

definition init_locals :: "generator \<Rightarrow> locals" where
  "init_locals self = init_locals_in (cohorts (subjects self)) self"

definition generate_in :: "pykey list \<Rightarrow> generator \<Rightarrow> (generator \<times> result) option" where
  "generate_in order self0 =
     (let self1 = self0\<lparr>timetable := [], conflicts := []\<rparr> in
      do {
        (self2, L) \<leftarrow> subjects_loop (subjects self1) self1 (init_locals_in order self1);
        self3 \<leftarrow> detect_conflicts self2;
        occurrences \<leftarrow> count_occurrences (timetable self3) [];
        let self4 = validate_subjects (subjects self3) occurrences self3;
        Some (self4, \<lparr>r_timetable = timetable self4, r_conflicts = conflicts self4\<rparr>)
      })"

definition generate :: "generator \<Rightarrow> (generator \<times> result) option" where
  "generate self0 = generate_in (cohorts (subjects self0)) self0"

section \<open>Vocabulary of the statements\<close>

text \<open>
  A grid has the cell \<open>(k, day, slot)\<close> when \<open>grid[k][day][slot]\<close> does not raise.
\<close>

definition has_cell :: "'k grid \<Rightarrow> 'k \<Rightarrow> pystr \<Rightarrow> pystr \<Rightarrow> bool" where
  "has_cell g k day slot \<longleftrightarrow> grid_item g k day slot \<noteq> None"

text \<open>
  The three grids hold a cell for every teacher name, classroom and cohort of the input at
  every day and slot, and the index of teachers by subject only lists teachers of the input.
\<close>

definition grids_ok :: "generator \<Rightarrow> locals \<Rightarrow> bool" where
  "grids_ok self L \<longleftrightarrow>
     (\<forall>t\<in>set (teachers self). \<forall>d\<in>set (days_order L). \<forall>s\<in>set (slots_order L).
        has_cell (teacher_schedule L) (t_name t) d s) \<and>
     (\<forall>c\<in>set (classrooms self). \<forall>d\<in>set (days_order L). \<forall>s\<in>set (slots_order L).
        has_cell (classroom_schedule L) c d s) \<and>
     (\<forall>u\<in>set (subjects self). \<forall>d\<in>set (days_order L). \<forall>s\<in>set (slots_order L).
        has_cell (cohort_schedule L) (semester_of u) d s) \<and>
     (\<forall>k ts. map_of (subject_to_teachers L) k = Some ts \<longrightarrow> set ts \<subseteq> set (teachers self))"

text \<open>
  An entry as \<open>place_entry\<close> writes it, whose three cells are marked busy.
\<close>

definition booked :: "locals \<Rightarrow> entry \<Rightarrow> bool" where
  "booked L e \<longleftrightarrow>
     (\<exists>d s t c sem.
        e_day e = Val d \<and> e_time_slot e = Val s \<and> e_teacher e = Val t \<and>
        e_classrooms e = Val [c] \<and> e_semester e = present sem \<and> e_subject e \<noteq> Absent \<and>
        grid_get (teacher_schedule L) t d s \<and> grid_get (classroom_schedule L) c d s \<and>
        grid_get (cohort_schedule L) sem d s)"

text \<open>
  Two entries collide: same day and slot, and the same teacher, a common classroom (each
  entry's list flattened) or the same cohort.
\<close>

definition clash :: "entry \<Rightarrow> entry \<Rightarrow> bool" where
  "clash a b \<longleftrightarrow>
     e_day a = e_day b \<and> e_time_slot a = e_time_slot b \<and>
     (e_teacher a = e_teacher b \<or>
      set (classrooms_of a) \<inter> set (classrooms_of b) \<noteq> {} \<or>
      get_default (e_semester a) General = get_default (e_semester b) General)"

text \<open>
  The invariant of the placement loop: the grids are complete, every committed entry is
  booked, and no two committed entries collide.
\<close>

definition Inv :: "generator \<Rightarrow> locals \<Rightarrow> bool" where
  "Inv self L \<longleftrightarrow>
     grids_ok self L \<and> (\<forall>e\<in>set (timetable self). booked L e) \<and>
     sorted_wrt (\<lambda>a b. \<not> clash a b) (timetable self)"

text \<open>
  An entry carries the name and the cohort of a subject; the recount of \<open>generate\<close>
  attributes entries to subjects by this pair.
\<close>

definition from_subject :: "subject \<Rightarrow> entry \<Rightarrow> bool" where
  "from_subject u e \<longleftrightarrow> e_subject e = Val (s_name u) \<and> e_semester e = present (semester_of u)"

text \<open>
  The input fields of the generator object are unchanged.
\<close>

definition frame :: "generator \<Rightarrow> generator \<Rightarrow> bool" where
  "frame self self' \<longleftrightarrow>
     teachers self' = teachers self \<and> subjects self' = subjects self \<and>
     classrooms self' = classrooms self \<and> time_slots self' = time_slots self \<and>
     days self' = days self \<and> semesters self' = semesters self"

text \<open>
  The read-only local variables (\<open>days_order\<close>, \<open>slots_order\<close>, \<open>subject_to_teachers\<close>)
  are unchanged.
\<close>

definition lframe :: "locals \<Rightarrow> locals \<Rightarrow> bool" where
  "lframe L L' \<longleftrightarrow>
     days_order L' = days_order L \<and> slots_order L' = slots_order L \<and>
     subject_to_teachers L' = subject_to_teachers L"

text \<open>
  A candidate tuple built from a day, a slot, a teacher and a classroom of the input.
\<close>

definition cand_ok :: "generator \<Rightarrow> locals \<Rightarrow> candidate \<Rightarrow> bool" where
  "cand_ok self L cand \<longleftrightarrow>
     (case cand of (d, s, t, c) \<Rightarrow>
        d \<in> set (days_order L) \<and> s \<in> set (slots_order L) \<and>
        t \<in> set (teachers self) \<and> c \<in> set (classrooms self))"

text \<open>
  A placement pass appended \<open>n\<close> entries of the subject to \<open>self.timetable\<close> and left
  the rest of the object alone.
\<close>

definition grew :: "subject \<Rightarrow> generator \<Rightarrow> generator \<Rightarrow> int \<Rightarrow> bool" where
  "grew u self self' n \<longleftrightarrow>
     frame self self' \<and> conflicts self' = conflicts self \<and>
     (\<exists>new. timetable self' = timetable self @ new \<and> int (length new) = n \<and>
            (\<forall>e\<in>set new. from_subject u e))"

text \<open>
  What one round of the loop over the subjects does to the generator object: the entries
  it appends are the subject's, it appends one shortfall record with the missing count
  when fewer entries than required were placed and none otherwise, and it places no more
  entries than required, none when the required number is negative. \<open>steps\<close> is a
  sequence of rounds, one per subject.
\<close>

definition short_for :: "subject \<Rightarrow> int \<Rightarrow> conflict list \<Rightarrow> bool" where
  "short_for u n sh \<longleftrightarrow>
     (if n < sessions_required u
      then \<exists>sg rs. sh = [Shortfall (semester_of u) (s_name u) (sessions_required u - n) sg rs]
      else sh = [])"

definition subject_step :: "subject \<Rightarrow> generator \<Rightarrow> generator \<Rightarrow> bool" where
  "subject_step u self self' \<longleftrightarrow>
     frame self self' \<and>
     (\<exists>new sh. timetable self' = timetable self @ new \<and> (\<forall>e\<in>set new. from_subject u e) \<and>
        conflicts self' = conflicts self @ sh \<and> short_for u (int (length new)) sh \<and>
        int (length new) \<le> max 0 (sessions_required u))"

fun steps :: "subject list \<Rightarrow> generator \<Rightarrow> generator \<Rightarrow> bool" where
  "steps [] a c \<longleftrightarrow> a = c"
| "steps (u # rest) a c \<longleftrightarrow> (\<exists>b. subject_step u a b \<and> steps rest b c)"

text \<open>
  The shape of an entry that \<open>place_entry\<close> writes.
\<close>

definition placed_shape :: "entry \<Rightarrow> bool" where
  "placed_shape e \<longleftrightarrow>
     (\<exists>d s t c sem. e_day e = Val d \<and> e_time_slot e = Val s \<and> e_teacher e = Val t \<and>
        e_classrooms e = Val [c] \<and> e_semester e = present sem \<and> e_subject e \<noteq> Absent)"

text \<open>
  An entry that carries the keys \<open>detect_conflicts\<close> reads with \<open>e[...]\<close>.
\<close>

definition well_formed :: "entry \<Rightarrow> bool" where
  "well_formed e \<longleftrightarrow>
     e_day e \<noteq> Absent \<and> e_time_slot e \<noteq> Absent \<and> e_teacher e \<noteq> Absent \<and>
     e_subject e \<noteq> Absent"

text \<open>
  Every list stored in a dictionary holds elements of \<open>A\<close> only; the keys under which
  the detector files an entry that carries them.
\<close>

definition vals_in :: "('k \<times> 'v list) list \<Rightarrow> 'v set \<Rightarrow> bool" where
  "vals_in m A \<longleftrightarrow> (\<forall>(k, vs)\<in>set m. set vs \<subseteq> A)"

definition cell_of :: "entry \<Rightarrow> pykey \<times> pykey" where
  "cell_of e = (the (item (e_day e)), the (item (e_time_slot e)))"

definition teacher_key :: "entry \<Rightarrow> pykey" where
  "teacher_key e = the (item (e_teacher e))"

definition cohort_key :: "entry \<Rightarrow> pykey" where
  "cohort_key e = get_default (e_semester e) General"


fun is_shortfall :: "conflict \<Rightarrow> bool" where
  "is_shortfall (Shortfall h n m sg rs) = True"
| "is_shortfall _ = False"

fun is_validation :: "conflict \<Rightarrow> bool" where
  "is_validation (Validation h n m) = True"
| "is_validation _ = False"

text \<open>
  The generator object built with another \<open>semesters\<close> argument.
\<close>

definition with_semesters :: "pystr list \<Rightarrow> generator \<Rightarrow> generator" where
  "with_semesters x self = self\<lparr>semesters := x\<rparr>"

definition ps_with_semesters :: "pystr list \<Rightarrow> pstate \<Rightarrow> pstate" where
  "ps_with_semesters x st = st\<lparr>ps_self := with_semesters x (ps_self st)\<rparr>"

text \<open>
  Two local states that differ at most in the order of the items of \<open>cohort_schedule\<close>;
  the same for the states of a placement pass and for what a round returns.
\<close>

definition same_but_order :: "locals \<Rightarrow> locals \<Rightarrow> bool" where
  "same_but_order L L' \<longleftrightarrow>
     subject_to_teachers L' = subject_to_teachers L \<and> days_order L' = days_order L \<and>
     slots_order L' = slots_order L \<and> teacher_schedule L' = teacher_schedule L \<and>
     classroom_schedule L' = classroom_schedule L \<and> cohort_load L' = cohort_load L \<and>
     map_of (cohort_schedule L') = map_of (cohort_schedule L)"

definition ps_same_but_order :: "pstate \<Rightarrow> pstate \<Rightarrow> bool" where
  "ps_same_but_order st st' \<longleftrightarrow>
     ps_self st' = ps_self st \<and> placed st' = placed st \<and>
     used_positions st' = used_positions st \<and> used_days st' = used_days st \<and>
     same_but_order (ps_locals st) (ps_locals st')"

definition run_same_but_order :: "generator \<times> locals \<Rightarrow> generator \<times> locals \<Rightarrow> bool" where
  "run_same_but_order p q \<longleftrightarrow> fst q = fst p \<and> same_but_order (snd p) (snd q)"

text \<open>
  The generator object with another list of subjects.
\<close>

definition with_subjects :: "subject list \<Rightarrow> generator \<Rightarrow> generator" where
  "with_subjects x self = self\<lparr>subjects := x\<rparr>"

definition ps_with_subjects :: "subject list \<Rightarrow> pstate \<Rightarrow> pstate" where
  "ps_with_subjects x st = st\<lparr>ps_self := with_subjects x (ps_self st)\<rparr>"

text \<open>
  Two subjects that differ at most in how \<open>sessions_per_week\<close> spells the same
  required number of sessions.
\<close>

definition same_demand :: "subject \<Rightarrow> subject \<Rightarrow> bool" where
  "same_demand a b \<longleftrightarrow>
     s_name a = s_name b \<and> s_semester a = s_semester b \<and> s_departments a = s_departments b \<and>
     sessions_required a = sessions_required b"

text \<open>
  Entries and conflict records name a subject by its name and its semester. The subjects
  of a list that carry the pair of a subject; the number of committed entries under the
  pair; the \<open>missing_sessions\<close> values of the shortfall records under the pair (the records
  of the placement loop) and of the recount's records under it (\<open>Validation\<close>).
\<close>

definition subject_key :: "subject \<Rightarrow> pystr \<times> pykey" where
  "subject_key u = (s_name u, semester_of u)"

definition sharing :: "subject list \<Rightarrow> subject \<Rightarrow> subject list" where
  "sharing ss u = filter (\<lambda>v. subject_key v = subject_key u) ss"

definition placed_count :: "entry list \<Rightarrow> subject \<Rightarrow> int" where
  "placed_count tt u = int (length (filter (from_subject u) tt))"

fun missing_of :: "subject \<Rightarrow> conflict \<Rightarrow> int list" where
  "missing_of u (Shortfall h n m sg rs) = (if h = semester_of u \<and> n = s_name u then [m] else [])"
| "missing_of u _ = []"

definition missing_sessions :: "conflict list \<Rightarrow> subject \<Rightarrow> int list" where
  "missing_sessions cs u = concat (map (missing_of u) cs)"

fun recount_of :: "subject \<Rightarrow> conflict \<Rightarrow> int list" where
  "recount_of u (Validation h n m) = (if h = semester_of u \<and> n = s_name u then [m] else [])"
| "recount_of u _ = []"

definition recount_sessions :: "conflict list \<Rightarrow> subject \<Rightarrow> int list" where
  "recount_sessions cs u = concat (map (recount_of u) cs)"

text \<open>
  What one round of the placement loop appends, as the pair of its entries and its
  conflict records: entries of the subject; at most one record, a shortfall record; and the
  number of entries plus the \<open>missing_sessions\<close> of the record is the required number of
  sessions, or 0 when that number is negative.
\<close>

definition counted_round :: "subject \<Rightarrow> entry list \<times> conflict list \<Rightarrow> bool" where
  "counted_round u p \<longleftrightarrow>
     (\<forall>e\<in>set (fst p). from_subject u e) \<and> (\<forall>c\<in>set (snd p). is_shortfall c) \<and>
     length (snd p) \<le> 1 \<and>
     int (length (fst p)) + sum_list (missing_sessions (snd p) u) = max 0 (sessions_required u)"

text \<open>
  \<open>occurrences.get(key, 0)\<close> at the key of a subject.
\<close>

definition occurrences_of :: "(pykey \<times> pykey, nat) dict \<Rightarrow> subject \<Rightarrow> int" where
  "occurrences_of occ u =
     int (case map_of occ (Some (s_name u), semester_of u) of None \<Rightarrow> 0 | Some n \<Rightarrow> n)"

text \<open>
  The department-code rule in closed form: the first white-space-delimited token; the code
  of one raw string, where the separator kinds are tried in the order en dash, em dash,
  hyphen and the string is cut at the first occurrence of the first kind it contains; the
  list with later duplicates removed.
\<close>

definition first_token :: "pystr \<Rightarrow> pystr" where
  "first_token raw = takeWhile (\<lambda>c. \<not> is_space c) (dropWhile is_space raw)"

definition dept_code :: "pystr \<Rightarrow> pystr" where
  "dept_code d =
     (let raw = py_strip d in
      case filter (\<lambda>sep. sep \<in> set raw) separators of
        sep # _ \<Rightarrow> py_strip (takeWhile (\<lambda>c. c \<noteq> sep) raw)
      | [] \<Rightarrow> first_token raw)"

definition first_seen :: "'a list \<Rightarrow> 'a list" where
  "first_seen xs = rev (remdups (rev xs))"

text \<open>
  The rule as the specification words it: the string is cut at the first separator of any
  of the three kinds.
\<close>

definition spec_dept_code :: "pystr \<Rightarrow> pystr" where
  "spec_dept_code d =
     (let raw = py_strip d in
      if \<exists>c\<in>set raw. c \<in> set separators
      then py_strip (takeWhile (\<lambda>c. c \<notin> set separators) raw)
      else first_token raw)"

definition spec_dept_codes :: "pystr list \<Rightarrow> pystr list" where
  "spec_dept_codes ds = first_seen (filter (\<lambda>c. c \<noteq> []) (map spec_dept_code ds))"


section \<open>Example inputs\<close>

text \<open>
  Two teachers, two subjects of different cohorts, two classrooms, one day and one slot:
  both subjects get the only cell, Math is one session short.
\<close>

definition ex_ann :: teacher where
  "ex_ann = \<lparr>t_name = ustr ''Ann'', t_subjects = [ustr ''Math''], t_availability = []\<rparr>"

definition ex_bob :: teacher where
  "ex_bob = \<lparr>t_name = ustr ''Bob'', t_subjects = [ustr ''art ''],
             t_availability = [(ustr ''Mon'', [ustr ''9''])]\<rparr>"

definition ex_math :: subject where
  "ex_math = \<lparr>s_name = ustr ''Math'', s_semester = Val (ustr ''S1''),
              s_departments = [ustr ''CSE - Core''], s_sessions_per_week = Val 2\<rparr>"

definition ex_art :: subject where
  "ex_art = \<lparr>s_name = ustr ''Art'', s_semester = Absent, s_departments = [],
             s_sessions_per_week = Val 1\<rparr>"

definition ex_gen :: generator where
  "ex_gen = \<lparr>teachers = [ex_ann, ex_bob], subjects = [ex_math, ex_art],
             classrooms = [ustr ''R1'', ustr ''R2''], time_slots = [ustr ''9''],
             days = [ustr ''Mon''], semesters = [], timetable = [], conflicts = []\<rparr>"

definition ex_entry_math :: entry where
  "ex_entry_math = \<lparr>e_day = Val (ustr ''Mon''), e_time_slot = Val (ustr ''9''),
     e_subject = Val (ustr ''Math''), e_teacher = Val (ustr ''Ann''),
     e_semester = Val (ustr ''S1''), e_classrooms = Val [ustr ''R1''],
     e_department_codes = [ustr ''CSE'']\<rparr>"

definition ex_entry_art :: entry where
  "ex_entry_art = \<lparr>e_day = Val (ustr ''Mon''), e_time_slot = Val (ustr ''9''),
     e_subject = Val (ustr ''Art''), e_teacher = Val (ustr ''Bob''),
     e_semester = Val (ustr ''General''), e_classrooms = Val [ustr ''R2''],
     e_department_codes = []\<rparr>"

definition ex_shortfall :: conflict where
  "ex_shortfall = Shortfall (Some (ustr ''S1'')) (ustr ''Math'') 1 []
     [ustr ''No available teacher at Mon 9'', ustr ''Semester busy at Mon 9'']"

definition ex_validation :: conflict where
  "ex_validation = Validation (Some (ustr ''S1'')) (ustr ''Math'') 1"

definition ex_result :: result where
  "ex_result = \<lparr>r_timetable = [ex_entry_math, ex_entry_art],
                r_conflicts = [ex_shortfall, ex_validation]\<rparr>"

definition ex_gen_again :: generator where
  "ex_gen_again = ex_gen\<lparr>semesters := [ustr ''S7''], timetable := [ex_entry_art],
                         conflicts := [ex_validation]\<rparr>"

text \<open>
  Two orders in which the two cohorts of the example can be iterated.
\<close>

definition ex_order :: "pykey list" where
  "ex_order = [Some (ustr ''S1''), Some (ustr ''General'')]"

definition ex_order_again :: "pykey list" where
  "ex_order_again = [Some (ustr ''General''), Some (ustr ''S1''), Some (ustr ''General'')]"

text \<open>
  A subject whose \<open>sessions_per_week\<close> is \<open>null\<close>, one where the key is absent.
\<close>

definition ex_null :: subject where
  "ex_null = \<lparr>s_name = ustr ''Math'', s_semester = Absent, s_departments = [],
              s_sessions_per_week = Null\<rparr>"

definition ex_absent :: subject where
  "ex_absent = \<lparr>s_name = ustr ''Math'', s_semester = Absent, s_departments = [],
                s_sessions_per_week = Absent\<rparr>"

definition ex_null_gen :: generator where
  "ex_null_gen = \<lparr>teachers = [ex_ann], subjects = [ex_null], classrooms = [ustr ''R1''],
                  time_slots = [ustr ''9''], days = [ustr ''Mon'', ustr ''Tue''],
                  semesters = [], timetable = [], conflicts = []\<rparr>"

text \<open>
  One day with two slots and a subject that needs two sessions; \<open>ex_st1\<close> is the state of
  the first pass after its first candidate.
\<close>

definition ex_two :: subject where
  "ex_two = \<lparr>s_name = ustr ''Math'', s_semester = Absent, s_departments = [],
             s_sessions_per_week = Val 2\<rparr>"

definition ex_one_day :: generator where
  "ex_one_day = \<lparr>teachers = [ex_ann], subjects = [ex_two], classrooms = [ustr ''R1''],
                 time_slots = [ustr ''9'', ustr ''10''], days = [ustr ''Mon''],
                 semesters = [], timetable = [], conflicts = []\<rparr>"

definition ex_st0 :: pstate where
  "ex_st0 = \<lparr>ps_self = ex_one_day, ps_locals = init_locals ex_one_day, placed = 0,
             used_positions = {}, used_days = {}\<rparr>"

definition ex_first :: candidate where
  "ex_first = (ustr ''Mon'', ustr ''9'', ex_ann, ustr ''R1'')"

definition ex_second :: candidate where
  "ex_second = (ustr ''Mon'', ustr ''10'', ex_ann, ustr ''R1'')"



text \<open>
  A department string with a hyphen before an en dash.
\<close>

definition ex_dash :: subject where
  "ex_dash = \<lparr>s_name = ustr ''AI'', s_semester = Absent,
              s_departments = [ustr ''CS-AI '' @ [8211] @ ustr '' Dept''],
              s_sessions_per_week = Absent\<rparr>"

text \<open>
  An edited timetable as the update route hands it to the detector.
\<close>

definition ex_edit_a :: entry where
  "ex_edit_a = \<lparr>e_day = Val (ustr ''Mon''), e_time_slot = Val (ustr ''9''),
     e_subject = Val (ustr ''Math''), e_teacher = Val (ustr ''Ann''),
     e_semester = Null, e_classrooms = Val [ustr ''R1''], e_department_codes = []\<rparr>"

definition ex_edit_b :: entry where
  "ex_edit_b = \<lparr>e_day = Val (ustr ''Mon''), e_time_slot = Val (ustr ''9''),
     e_subject = Null, e_teacher = Val (ustr ''Ann''),
     e_semester = Absent, e_classrooms = Val [ustr ''R2'', ustr ''R1''],
     e_department_codes = []\<rparr>"

definition ex_edited :: generator where
  "ex_edited = \<lparr>teachers = [], subjects = [], classrooms = [], time_slots = [], days = [],
                semesters = [], timetable = [ex_edit_a, ex_edit_b], conflicts = []\<rparr>"

text \<open>
  Two subjects with the same name and semester, one session each, and one day with two
  slots; what \<open>generate\<close> returns for them.
\<close>

definition ex_twin_a :: subject where
  "ex_twin_a = \<lparr>s_name = ustr ''Math'', s_semester = Val (ustr ''S1''),
                s_departments = [ustr ''CSE - Core''], s_sessions_per_week = Val 1\<rparr>"

definition ex_twin_b :: subject where
  "ex_twin_b = \<lparr>s_name = ustr ''Math'', s_semester = Val (ustr ''S1''),
                s_departments = [ustr ''ECE - Core''], s_sessions_per_week = Val 1\<rparr>"

definition ex_twin_gen :: generator where
  "ex_twin_gen = \<lparr>teachers = [ex_ann], subjects = [ex_twin_a, ex_twin_b],
                  classrooms = [ustr ''R1''], time_slots = [ustr ''9'', ustr ''10''],
                  days = [ustr ''Mon''], semesters = [], timetable = [], conflicts = []\<rparr>"

definition ex_twin_result :: result where
  "ex_twin_result =
     \<lparr>r_timetable =
        [\<lparr>e_day = Val (ustr ''Mon''), e_time_slot = Val (ustr ''9''),
          e_subject = Val (ustr ''Math''), e_teacher = Val (ustr ''Ann''),
          e_semester = Val (ustr ''S1''), e_classrooms = Val [ustr ''R1''],
          e_department_codes = [ustr ''CSE'']\<rparr>,
         \<lparr>e_day = Val (ustr ''Mon''), e_time_slot = Val (ustr ''10''),
          e_subject = Val (ustr ''Math''), e_teacher = Val (ustr ''Ann''),
          e_semester = Val (ustr ''S1''), e_classrooms = Val [ustr ''R1''],
          e_department_codes = [ustr ''ECE'']\<rparr>],
      r_conflicts = []\<rparr>"

text \<open>
  A subject with a negative \<open>sessions_per_week\<close>; a subject without the key followed by
  one whose \<open>sessions_per_week\<close> is \<open>null\<close>.
\<close>

definition ex_neg :: subject where
  "ex_neg = \<lparr>s_name = ustr ''Math'', s_semester = Absent, s_departments = [],
             s_sessions_per_week = Val (- 1)\<rparr>"

definition ex_neg_gen :: generator where
  "ex_neg_gen = ex_null_gen\<lparr>subjects := [ex_neg]\<rparr>"

definition ex_mixed_gen :: generator where
  "ex_mixed_gen = ex_null_gen\<lparr>subjects := [ex_absent, ex_null]\<rparr>"

section \<open>Dictionaries, grids and loops\<close>

lemma init_locals_unfold:
  "init_locals self =
     (let days_order = days self; slots_order = time_slots self in
      \<lparr> subject_to_teachers = index_teachers (teachers self) [],
        days_order = days_order,
        slots_order = slots_order,
        teacher_schedule = new_grid (map t_name (teachers self)) days_order slots_order,
        classroom_schedule = new_grid (classrooms self) days_order slots_order,
        cohort_schedule = new_grid (cohorts (subjects self)) days_order slots_order,
        cohort_load = [] \<rparr>)"
  by (simp add: init_locals_def init_locals_in_def)

lemma generate_unfold:
  "generate self0 =
     (let self1 = self0\<lparr>timetable := [], conflicts := []\<rparr> in
      do {
        (self2, L) \<leftarrow> subjects_loop (subjects self1) self1 (init_locals self1);
        self3 \<leftarrow> detect_conflicts self2;
        occurrences \<leftarrow> count_occurrences (timetable self3) [];
        let self4 = validate_subjects (subjects self3) occurrences self3;
        Some (self4, \<lparr>r_timetable = timetable self4, r_conflicts = conflicts self4\<rparr>)
      })"
  by (simp add: generate_def generate_in_def init_locals_def)

lemma map_of_fold_update:
  "map_of (fold (\<lambda>k m. AList.update k (f k) m) keys m0) k =
     (if k \<in> set keys then Some (f k) else map_of m0 k)"
  by (induction keys arbitrary: m0) (auto simp: update_conv')

lemma map_of_dict_comp:
  "map_of (dict_comp keys f) k = (if k \<in> set keys then Some (f k) else None)"
  by (simp add: dict_comp_def map_of_fold_update)

lemma has_cell_new_grid:
  "k \<in> set keys \<Longrightarrow> d \<in> set ds \<Longrightarrow> s \<in> set ss \<Longrightarrow> has_cell (new_grid keys ds ss) k d s"
  by (simp add: has_cell_def grid_item_def new_grid_def map_of_dict_comp)

lemma grid_get_new_grid: "\<not> grid_get (new_grid keys ds ss) k d s"
  by (simp add: grid_get_def new_grid_def map_of_dict_comp)

lemma grid_item_get: "has_cell g k d s \<Longrightarrow> grid_item g k d s = Some (grid_get g k d s)"
  by (auto simp: has_cell_def grid_item_def grid_get_def split: Option.bind_splits)

lemma grid_mark_Some: "has_cell g k d s \<Longrightarrow> \<exists>g'. grid_mark g k d s = Some g'"
  by (auto simp: has_cell_def grid_item_def grid_mark_def split: Option.bind_splits)

lemma grid_mark_get:
  "grid_mark g k d s = Some g' \<Longrightarrow>
   grid_get g' k' d' s' \<longleftrightarrow> grid_get g k' d' s' \<or> (k' = k \<and> d' = d \<and> s' = s)"
proof -
  assume "grid_mark g k d s = Some g'"
  then obtain dm sm where dm: "map_of g k = Some dm" and sm: "map_of dm d = Some sm"
    and g': "g' = AList.update k (AList.update d (AList.update s True sm) dm) g"
    by (auto simp: grid_mark_def split: Option.bind_splits)
  show ?thesis
  proof (cases "k' = k")
    case False
    then show ?thesis by (simp add: g' grid_get_def update_conv')
  next
    case k: True
    show ?thesis
    proof (cases "d' = d")
      case False
      then show ?thesis using k dm by (simp add: g' grid_get_def update_conv')
    next
      case True
      then show ?thesis using k dm sm
        by (cases "s' = s") (simp_all add: g' grid_get_def update_conv')
    qed
  qed
qed

lemma grid_mark_has:
  "grid_mark g k d s = Some g' \<Longrightarrow> has_cell g k' d' s' \<Longrightarrow> has_cell g' k' d' s'"
proof -
  assume "grid_mark g k d s = Some g'" and h: "has_cell g k' d' s'"
  then obtain dm sm where dm: "map_of g k = Some dm" and sm: "map_of dm d = Some sm"
    and g': "g' = AList.update k (AList.update d (AList.update s True sm) dm) g"
    by (auto simp: grid_mark_def split: Option.bind_splits)
  show ?thesis
  proof (cases "k' = k")
    case False
    then show ?thesis using h by (simp add: g' has_cell_def grid_item_def update_conv')
  next
    case k: True
    show ?thesis
    proof (cases "d' = d")
      case False
      then show ?thesis using k dm h by (simp add: g' has_cell_def grid_item_def update_conv')
    next
      case True
      then show ?thesis using k dm sm h
        by (cases "s' = s") (simp_all add: g' has_cell_def grid_item_def update_conv')
    qed
  qed
qed

lemma py_index_Some: "x \<in> set xs \<Longrightarrow> \<exists>i. py_index xs x = Some i"
  by (induction xs) auto

lemma those_map_Some:
  "(\<And>x. x \<in> set xs \<Longrightarrow> \<exists>y. f x = Some y) \<Longrightarrow> \<exists>ys. those (map f xs) = Some ys"
  by (induction xs) (auto split: option.splits)

lemma those_map_D:
  "those (map f xs) = Some ys \<Longrightarrow> ys = map (\<lambda>x. the (f x)) xs \<and> (\<forall>x\<in>set xs. f x \<noteq> None)"
  by (induction xs arbitrary: ys) (auto split: option.splits)

lemma for_each_Some:
  "(\<And>x. x \<in> set xs \<Longrightarrow> \<exists>y. f x = Some y) \<Longrightarrow> \<exists>r. for_each xs f = Some r"
  using those_map_Some[of xs f] by (auto simp: for_each_def)

lemma for_each_mem:
  "for_each xs f = Some r \<Longrightarrow> e \<in> set r \<Longrightarrow> \<exists>x\<in>set xs. \<exists>ys. f x = Some ys \<and> e \<in> set ys"
proof -
  assume "for_each xs f = Some r" and e: "e \<in> set r"
  then obtain ys where "those (map f xs) = Some ys" and r: "r = concat ys"
    by (auto simp: for_each_def)
  then have ys: "ys = map (\<lambda>x. the (f x)) xs" and ok: "\<forall>x\<in>set xs. f x \<noteq> None"
    using those_map_D by blast+
  from e r ys obtain x where "x \<in> set xs" "e \<in> set (the (f x))" by auto
  with ok show ?thesis by force
qed

lemma index_subjects_sub:
  "map_of (index_subjects t ss m) k = Some xs \<Longrightarrow>
   (\<And>k ys. map_of m k = Some ys \<Longrightarrow> set ys \<subseteq> A) \<Longrightarrow> t \<in> A \<Longrightarrow> set xs \<subseteq> A"
proof (induction ss arbitrary: m)
  case Nil
  then show ?case by auto
next
  case (Cons s ss)
  show ?case
  proof (cases "py_lower (py_strip s) = []")
    case True
    with Cons show ?thesis by (simp add: Let_def)
  next
    case False
    let ?key = "py_lower (py_strip s)"
    let ?m = "AList.update ?key ((case map_of m ?key of None \<Rightarrow> [] | Some ts \<Rightarrow> ts) @ [t]) m"
    have step: "map_of (index_subjects t ss ?m) k = Some xs"
      using Cons.prems(1) False by (simp add: Let_def)
    have "\<And>k ys. map_of ?m k = Some ys \<Longrightarrow> set ys \<subseteq> A"
    proof -
      fix k' ys assume a: "map_of ?m k' = Some ys"
      show "set ys \<subseteq> A"
      proof (cases "k' = ?key")
        case True
        with a have ys: "ys = (case map_of m ?key of None \<Rightarrow> [] | Some ts \<Rightarrow> ts) @ [t]"
          by (simp add: update_conv')
        show ?thesis
        proof (cases "map_of m ?key")
          case None
          with ys Cons.prems(3) show ?thesis by simp
        next
          case (Some ts)
          with Cons.prems(2) have "set ts \<subseteq> A" by blast
          with ys Some Cons.prems(3) show ?thesis by simp
        qed
      next
        case False
        with a have "map_of m k' = Some ys" by (simp add: update_conv')
        with Cons.prems(2) show ?thesis by blast
      qed
    qed
    from Cons.IH[OF step this Cons.prems(3)] show ?thesis .
  qed
qed

lemma index_teachers_sub:
  "map_of (index_teachers ts m) k = Some xs \<Longrightarrow>
   (\<And>k ys. map_of m k = Some ys \<Longrightarrow> set ys \<subseteq> A) \<Longrightarrow> set ts \<subseteq> A \<Longrightarrow> set xs \<subseteq> A"
proof (induction ts arbitrary: m)
  case Nil
  then show ?case by auto
next
  case (Cons t ts)
  have "\<And>k ys. map_of (index_subjects t (t_subjects t) m) k = Some ys \<Longrightarrow> set ys \<subseteq> A"
    using index_subjects_sub[of t "t_subjects t" m _ _ A] Cons.prems(2,3) by auto
  with Cons show ?case by auto
qed

section \<open>Committing an entry keeps the invariant\<close>

lemma get_default_present: "get_default (present x) d = x"
  by (cases x) (simp_all add: get_default_def present_def)

lemma frame_refl: "frame a a" and lframe_refl: "lframe L L"
  by (simp_all add: frame_def lframe_def)

lemma frame_trans: "frame a b \<Longrightarrow> frame b c \<Longrightarrow> frame a c"
  by (simp add: frame_def)

lemma lframe_trans: "lframe a b \<Longrightarrow> lframe b c \<Longrightarrow> lframe a c"
  by (simp add: lframe_def)

lemma cand_ok_frame: "frame a b \<Longrightarrow> lframe L L' \<Longrightarrow> cand_ok b L' cand = cand_ok a L cand"
  by (simp add: frame_def lframe_def cand_ok_def)

lemma place_entry_ok:
  assumes inv: "Inv self L" and cp: "can_place L u t c d s"
    and ok: "cand_ok self L (d, s, t, c)" and u: "u \<in> set (subjects self)"
  shows "\<exists>self' L'. place_entry self L u t c d s = Some (self', L') \<and> Inv self' L' \<and>
           frame self self' \<and> lframe L L' \<and> conflicts self' = conflicts self \<and>
           (\<exists>e. timetable self' = timetable self @ [e] \<and> from_subject u e \<and>
                e_classrooms e = Val [c])"
proof -
  from ok have d: "d \<in> set (days_order L)" and s: "s \<in> set (slots_order L)"
    and t: "t \<in> set (teachers self)" and c: "c \<in> set (classrooms self)"
    by (simp_all add: cand_ok_def)
  from inv have gok: "grids_ok self L" and bk: "\<forall>e\<in>set (timetable self). booked L e"
    and nc: "sorted_wrt (\<lambda>a b. \<not> clash a b) (timetable self)"
    by (simp_all add: Inv_def)
  from gok t c u d s have "has_cell (teacher_schedule L) (t_name t) d s"
    and "has_cell (classroom_schedule L) c d s"
    and "has_cell (cohort_schedule L) (semester_of u) d s"
    by (simp_all add: grids_ok_def)
  then obtain ts cs hs where ts: "grid_mark (teacher_schedule L) (t_name t) d s = Some ts"
    and cs: "grid_mark (classroom_schedule L) c d s = Some cs"
    and hs: "grid_mark (cohort_schedule L) (semester_of u) d s = Some hs"
    using grid_mark_Some by metis
  define e where "e = \<lparr> e_day = Val d, e_time_slot = Val s, e_subject = Val (s_name u),
      e_teacher = Val (t_name t), e_semester = present (semester_of u),
      e_classrooms = Val [c], e_department_codes = extract_all_dept_codes u \<rparr>"
  define self' where "self' = self\<lparr>timetable := timetable self @ [e]\<rparr>"
  define L' where "L' = L\<lparr>teacher_schedule := ts, classroom_schedule := cs,
      cohort_schedule := hs, cohort_load := bump_load (cohort_load L) (semester_of u) d\<rparr>"
  have pe: "place_entry self L u t c d s = Some (self', L')"
    by (simp add: place_entry_def Let_def ts cs hs e_def self'_def L'_def)
  have fr: "frame self self'" and lf: "lframe L L'"
    by (simp_all add: frame_def lframe_def self'_def L'_def)
  have gok': "grids_ok self' L'"
    using gok grid_mark_has[OF ts] grid_mark_has[OF cs] grid_mark_has[OF hs]
    by (simp add: grids_ok_def self'_def L'_def)
  have mono: "booked L x \<Longrightarrow> booked L' x" for x
    using grid_mark_get[OF ts] grid_mark_get[OF cs] grid_mark_get[OF hs]
    unfolding booked_def L'_def by simp blast
  have be: "booked L' e"
    unfolding booked_def L'_def e_def
    using grid_mark_get[OF ts] grid_mark_get[OF cs] grid_mark_get[OF hs] by auto
  have free: "\<not> grid_get (teacher_schedule L) (t_name t) d s"
    "\<not> grid_get (classroom_schedule L) c d s"
    "\<not> grid_get (cohort_schedule L) (semester_of u) d s"
    using cp by (auto simp: can_place_def Let_def split: if_splits)
  have noclash: "\<not> clash x e" if "x \<in> set (timetable self)" for x
  proof
    assume cl: "clash x e"
    from bk that have "booked L x" by blast
    then obtain d' s' t' c' sem' where x: "e_day x = Val d'" "e_time_slot x = Val s'"
      "e_teacher x = Val t'" "e_classrooms x = Val [c']" "e_semester x = present sem'"
      and g: "grid_get (teacher_schedule L) t' d' s'" "grid_get (classroom_schedule L) c' d' s'"
        "grid_get (cohort_schedule L) sem' d' s'"
      unfolding booked_def by blast
    from cl x have "d' = d" "s' = s"
      and "t' = t_name t \<or> c' = c \<or> sem' = semester_of u"
      by (auto simp: clash_def e_def classrooms_of_def get_default_present)
    with g free show False by auto
  qed
  have inv': "Inv self' L'"
    unfolding Inv_def using gok' mono bk be nc noclash
    by (auto simp: self'_def sorted_wrt_append)
  have "from_subject u e" "e_classrooms e = Val [c]" by (simp_all add: from_subject_def e_def)
  with pe inv' fr lf show ?thesis by (auto simp: self'_def)
qed

section \<open>Candidates come from the input\<close>

lemma rank_slots_for_semester_ok:
  "\<exists>r. rank_slots_for_semester L sem = Some r \<and> set r \<subseteq> set (days_order L) \<times> set (slots_order L)"
proof -
  define ranked where "ranked =
     concat (map (\<lambda>day. let load = load_get (cohort_load L) sem day in
              map (\<lambda>slot. (rank_slots (cohort_load L) day slot sem + int load * 10, day, slot))
                  (slots_order L)) (days_order L))"
  define key where "key = (\<lambda>(score :: int, day, slot).
       do { di \<leftarrow> py_index (days_order L) day; si \<leftarrow> py_index (slots_order L) slot;
            Some ((score, di, si), (day, slot)) })"
  have mem: "\<And>x. x \<in> set ranked \<Longrightarrow> fst (snd x) \<in> set (days_order L) \<and> snd (snd x) \<in> set (slots_order L)"
    by (auto simp: ranked_def Let_def)
  have "\<exists>y. key x = Some y" if "x \<in> set ranked" for x
  proof -
    obtain sc d s where x: "x = (sc, d, s)" by (cases x)
    with mem[OF that] obtain di si where "py_index (days_order L) d = Some di"
      "py_index (slots_order L) s = Some si" using py_index_Some by fastforce
    then show ?thesis by (simp add: key_def x)
  qed
  then obtain keyed where k: "those (map key ranked) = Some keyed"
    using those_map_Some by blast
  then have keyed: "keyed = map (\<lambda>x. the (key x)) ranked" and ok: "\<forall>x\<in>set ranked. key x \<noteq> None"
    using those_map_D by blast+
  have r: "rank_slots_for_semester L sem = Some (map snd (sort_key fst keyed))"
    using k unfolding rank_slots_for_semester_def ranked_def key_def Let_def by simp
  have "snd (the (key x)) = snd x" if "x \<in> set ranked" for x
    using ok that by (cases x) (auto simp: key_def split: Option.bind_splits)
  then have "set (map snd (sort_key fst keyed)) \<subseteq> set (days_order L) \<times> set (slots_order L)"
    using mem by (auto simp: keyed)
  with r show ?thesis by blast
qed

lemma teacher_load_ok:
  assumes "grids_ok self L" "t \<in> set (teachers self)"
  shows "\<exists>n. teacher_load L t = Some n"
proof -
  have "\<exists>y. (\<lambda>(d, s). grid_item (teacher_schedule L) (t_name t) d s) x = Some y"
    if x: "x \<in> set (List.product (days_order L) (slots_order L))" for x
  proof -
    obtain d s where ds: "x = (d, s)" by (cases x)
    with x have "d \<in> set (days_order L)" "s \<in> set (slots_order L)" by simp_all
    with assms have "has_cell (teacher_schedule L) (t_name t) d s"
      by (simp add: grids_ok_def)
    then show ?thesis by (simp add: ds has_cell_def)
  qed
  then obtain cells where
    "those (map (\<lambda>(d, s). grid_item (teacher_schedule L) (t_name t) d s)
        (List.product (days_order L) (slots_order L))) = Some cells"
    using those_map_Some by blast
  then show ?thesis by (simp add: teacher_load_def)
qed

lemma teachers_for_sub:
  assumes "grids_ok self L"
  shows "set (teachers_for L u) \<subseteq> set (teachers self)"
proof (cases "map_of (subject_to_teachers L) (py_lower (py_strip (s_name u)))")
  case None
  then show ?thesis by (simp add: teachers_for_def)
next
  case (Some ts)
  with assms have "set ts \<subseteq> set (teachers self)" unfolding grids_ok_def by blast
  with Some show ?thesis by (simp add: teachers_for_def)
qed

lemma all_candidate_assignments_ok:
  assumes gok: "grids_ok self L"
  shows "\<exists>feasible. all_candidate_assignments self L u = Some feasible \<and>
           (\<forall>cand\<in>set feasible. cand_ok self L cand)"
proof (cases "teachers_for L u = []")
  case True
  then show ?thesis by (simp add: all_candidate_assignments_def)
next
  case False
  obtain ranked where r: "rank_slots_for_semester L (semester_of u) = Some ranked"
    and rs: "set ranked \<subseteq> set (days_order L) \<times> set (slots_order L)"
    using rank_slots_for_semester_ok by blast
  define inner where "inner = (\<lambda>day slot t c.
       if can_place L u t c day slot then
         do { t_load \<leftarrow> teacher_load L t;
              di \<leftarrow> py_index (days_order L) day;
              si \<leftarrow> py_index (slots_order L) slot;
              Some [(t_load, di, si, day, slot, t, c)] }
       else Some [])"
  define mid where "mid = (\<lambda>day slot t.
       if \<not> is_teacher_available t day slot then Some []
       else for_each (classrooms self) (inner day slot t))"
  define outer where "outer = (\<lambda>(day, slot). for_each (teachers_for L u) (mid day slot))"
  have inner_ok: "\<exists>y. inner d s t c = Some y \<and> (\<forall>x\<in>set y. snd (snd (snd x)) = (d, s, t, c))"
    if a: "d \<in> set (days_order L)" "s \<in> set (slots_order L)" "t \<in> set (teachers self)"
    for d s t c
  proof -
    obtain n di si where "teacher_load L t = Some n" "py_index (days_order L) d = Some di"
      "py_index (slots_order L) s = Some si"
      using teacher_load_ok[OF gok a(3)] py_index_Some a(1,2) by metis
    then show ?thesis by (simp add: inner_def)
  qed
  have mid_ok: "\<exists>y. mid d s t = Some y \<and>
      (\<forall>x\<in>set y. \<exists>c\<in>set (classrooms self). snd (snd (snd x)) = (d, s, t, c))"
    if a: "d \<in> set (days_order L)" "s \<in> set (slots_order L)" "t \<in> set (teachers self)" for d s t
  proof (cases "is_teacher_available t d s")
    case False
    then show ?thesis by (simp add: mid_def)
  next
    case True
    obtain y where y: "for_each (classrooms self) (inner d s t) = Some y"
      using for_each_Some[of "classrooms self" "inner d s t"] inner_ok[OF a] by blast
    have "\<exists>c\<in>set (classrooms self). snd (snd (snd x)) = (d, s, t, c)" if "x \<in> set y" for x
      using for_each_mem[OF y that] inner_ok[OF a] by fastforce
    with y True show ?thesis by (simp add: mid_def)
  qed
  have outer_ok: "\<exists>y. outer p = Some y \<and>
      (\<forall>x\<in>set y. cand_ok self L (snd (snd (snd x))))" if p: "p \<in> set ranked" for p
  proof -
    obtain d s where ds: "p = (d, s)" by (cases p)
    with p rs have a: "d \<in> set (days_order L)" "s \<in> set (slots_order L)" by auto
    have t: "\<And>t. t \<in> set (teachers_for L u) \<Longrightarrow> t \<in> set (teachers self)"
      using teachers_for_sub[OF gok] by blast
    obtain y where y: "for_each (teachers_for L u) (mid d s) = Some y"
      using for_each_Some[of "teachers_for L u" "mid d s"] mid_ok[OF a] t by blast
    have "cand_ok self L (snd (snd (snd x)))" if "x \<in> set y" for x
    proof -
      from for_each_mem[OF y that] obtain t' ys where t': "t' \<in> set (teachers_for L u)"
        and ys: "mid d s t' = Some ys" "x \<in> set ys" by blast
      from t' have tt: "t' \<in> set (teachers self)" by (rule t)
      from mid_ok[OF a tt] ys obtain c where "c \<in> set (classrooms self)"
        "snd (snd (snd x)) = (d, s, t', c)" by auto
      with a tt show ?thesis by (simp add: cand_ok_def)
    qed
    with y ds show ?thesis by (simp add: outer_def)
  qed
  obtain cands where c: "for_each ranked outer = Some cands"
    using for_each_Some[of ranked outer] outer_ok by blast
  have cok: "cand_ok self L (snd (snd (snd x)))" if "x \<in> set cands" for x
    using for_each_mem[OF c that] outer_ok by fastforce
  have "all_candidate_assignments self L u =
      Some (map (\<lambda>(t_load, di, si, day, slot, t, c). (day, slot, t, c))
             (sort_key (\<lambda>(t_load, di, si, day, slot, t, c).
                          (t_load, di, si, py_lower (t_name t), c)) cands))"
    using False r c
    unfolding all_candidate_assignments_def Let_def outer_def mid_def inner_def by simp
  moreover have "(\<lambda>(t_load :: nat, di :: nat, si :: nat, day, slot, t, c). (day, slot, t, c)) x
       = snd (snd (snd x))" for x :: "nat \<times> nat \<times> nat \<times> pystr \<times> pystr \<times> teacher \<times> pystr"
    by (cases x) simp
  ultimately show ?thesis using cok by auto
qed

section \<open>The placement passes\<close>

lemma grew_refl: "grew u a a 0"
  by (simp add: grew_def frame_refl)

lemma grew_trans: "grew u a b n \<Longrightarrow> grew u b c m \<Longrightarrow> grew u a c (n + m)"
  unfolding grew_def using frame_trans by fastforce

lemma pass1_ok:
  assumes "Inv (ps_self st) (ps_locals st)"
    and "\<forall>cand\<in>set cands. cand_ok (ps_self st) (ps_locals st) cand"
    and "u \<in> set (subjects (ps_self st))"
  shows "\<exists>st'. pass1 u req fd cands st = Some st' \<and> Inv (ps_self st') (ps_locals st') \<and>
           lframe (ps_locals st) (ps_locals st') \<and>
           grew u (ps_self st) (ps_self st') (placed st' - placed st) \<and>
           placed st \<le> placed st' \<and> (placed st' \<le> req \<or> placed st' = placed st)"
  using assms
proof (induction cands arbitrary: st)
  case Nil
  then show ?case by (simp add: lframe_refl grew_refl)
next
  case (Cons cand cands)
  obtain d s t c where cand: "cand = (d, s, t, c)" by (cases cand)
  have rest: "\<forall>x\<in>set cands. cand_ok (ps_self st) (ps_locals st) x"
    and ok: "cand_ok (ps_self st) (ps_locals st) (d, s, t, c)"
    using Cons.prems(2) cand by simp_all
  show ?case
  proof (cases "pass1_action req fd st d s")
    case Break
    then show ?thesis using Cons.prems(1) by (simp add: cand lframe_refl grew_refl)
  next
    case Continue
    with Cons.IH[OF Cons.prems(1) rest Cons.prems(3)] show ?thesis by (simp add: cand)
  next
    case Attempt
    then have lt: "placed st < req" by (auto simp: pass1_action_def split: if_splits)
    show ?thesis
    proof (cases "can_place (ps_locals st) u t c d s")
      case False
      with Attempt Cons.IH[OF Cons.prems(1) rest Cons.prems(3)] show ?thesis
        by (simp add: cand)
    next
      case True
      from place_entry_ok[OF Cons.prems(1) True ok Cons.prems(3)]
      obtain self' L' e where pe: "place_entry (ps_self st) (ps_locals st) u t c d s = Some (self', L')"
        and inv': "Inv self' L'" and fr: "frame (ps_self st) self'"
        and lf: "lframe (ps_locals st) L'" and cf: "conflicts self' = conflicts (ps_self st)"
        and tt: "timetable self' = timetable (ps_self st) @ [e]" and fs: "from_subject u e"
        by blast
      define st1 where "st1 = st\<lparr>ps_self := self', ps_locals := L',
          used_positions := insert (d, s) (used_positions st),
          used_days := insert d (used_days st), placed := placed st + 1\<rparr>"
      have g1: "grew u (ps_self st) (ps_self st1) 1"
        using fr cf tt fs by (simp add: grew_def st1_def)
      have "Inv (ps_self st1) (ps_locals st1)" using inv' by (simp add: st1_def)
      moreover have "\<forall>x\<in>set cands. cand_ok (ps_self st1) (ps_locals st1) x"
        using rest cand_ok_frame[OF fr lf] by (simp add: st1_def)
      moreover have "u \<in> set (subjects (ps_self st1))"
        using Cons.prems(3) fr by (simp add: st1_def frame_def)
      ultimately obtain st' where r: "pass1 u req fd cands st1 = Some st'"
        and i: "Inv (ps_self st') (ps_locals st')"
        and l: "lframe (ps_locals st1) (ps_locals st')"
        and g: "grew u (ps_self st1) (ps_self st') (placed st' - placed st1)"
        and p: "placed st1 \<le> placed st'" "placed st' \<le> req \<or> placed st' = placed st1"
        using Cons.IH[of st1] by blast
      have p1: "placed st1 = placed st + 1" by (simp add: st1_def)
      have "pass1 u req fd (cand # cands) st = Some st'"
        using Attempt True pe r by (simp add: cand st1_def)
      moreover have "lframe (ps_locals st) (ps_locals st')"
        using lframe_trans[OF _ l] lf by (simp add: st1_def)
      moreover have "grew u (ps_self st) (ps_self st') (placed st' - placed st)"
        using grew_trans[OF g1 g] p1 by simp
      ultimately show ?thesis using i p p1 lt by auto
    qed
  qed
qed

lemma pass2_ok:
  assumes "Inv (ps_self st) (ps_locals st)"
    and "\<forall>cand\<in>set cands. cand_ok (ps_self st) (ps_locals st) cand"
    and "u \<in> set (subjects (ps_self st))"
  shows "\<exists>st'. pass2 u req cands st = Some st' \<and> Inv (ps_self st') (ps_locals st') \<and>
           lframe (ps_locals st) (ps_locals st') \<and>
           grew u (ps_self st) (ps_self st') (placed st' - placed st) \<and>
           placed st \<le> placed st' \<and> (placed st' \<le> req \<or> placed st' = placed st)"
  using assms
proof (induction cands arbitrary: st)
  case Nil
  then show ?case by (simp add: lframe_refl grew_refl)
next
  case (Cons cand cands)
  obtain d s t c where cand: "cand = (d, s, t, c)" by (cases cand)
  have rest: "\<forall>x\<in>set cands. cand_ok (ps_self st) (ps_locals st) x"
    and ok: "cand_ok (ps_self st) (ps_locals st) (d, s, t, c)"
    using Cons.prems(2) cand by simp_all
  show ?case
  proof (cases "placed st \<ge> req")
    case True
    then show ?thesis using Cons.prems(1) by (simp add: cand lframe_refl grew_refl)
  next
    case lt: False
    show ?thesis
    proof (cases "can_place (ps_locals st) u t c d s")
      case False
      with lt Cons.IH[OF Cons.prems(1) rest Cons.prems(3)] show ?thesis
        by (simp add: cand)
    next
      case True
      from place_entry_ok[OF Cons.prems(1) True ok Cons.prems(3)]
      obtain self' L' e where pe: "place_entry (ps_self st) (ps_locals st) u t c d s = Some (self', L')"
        and inv': "Inv self' L'" and fr: "frame (ps_self st) self'"
        and lf: "lframe (ps_locals st) L'" and cf: "conflicts self' = conflicts (ps_self st)"
        and tt: "timetable self' = timetable (ps_self st) @ [e]" and fs: "from_subject u e"
        by blast
      define st1 where "st1 = st\<lparr>ps_self := self', ps_locals := L', placed := placed st + 1\<rparr>"
      have g1: "grew u (ps_self st) (ps_self st1) 1"
        using fr cf tt fs by (simp add: grew_def st1_def)
      have "Inv (ps_self st1) (ps_locals st1)" using inv' by (simp add: st1_def)
      moreover have "\<forall>x\<in>set cands. cand_ok (ps_self st1) (ps_locals st1) x"
        using rest cand_ok_frame[OF fr lf] by (simp add: st1_def)
      moreover have "u \<in> set (subjects (ps_self st1))"
        using Cons.prems(3) fr by (simp add: st1_def frame_def)
      ultimately obtain st' where r: "pass2 u req cands st1 = Some st'"
        and i: "Inv (ps_self st') (ps_locals st')"
        and l: "lframe (ps_locals st1) (ps_locals st')"
        and g: "grew u (ps_self st1) (ps_self st') (placed st' - placed st1)"
        and p: "placed st1 \<le> placed st'" "placed st' \<le> req \<or> placed st' = placed st1"
        using Cons.IH[of st1] by blast
      have p1: "placed st1 = placed st + 1" by (simp add: st1_def)
      have "pass2 u req (cand # cands) st = Some st'"
        using lt True pe r by (simp add: cand st1_def)
      moreover have "lframe (ps_locals st) (ps_locals st')"
        using lframe_trans[OF _ l] lf by (simp add: st1_def)
      moreover have "grew u (ps_self st) (ps_self st') (placed st' - placed st)"
        using grew_trans[OF g1 g] p1 by simp
      ultimately show ?thesis using i p p1 lt by auto
    qed
  qed
qed

section \<open>Diagnostics and the loop over the subjects\<close>

lemma py_any_Some: "(\<And>x. x \<in> set xs \<Longrightarrow> \<exists>b. f x = Some b) \<Longrightarrow> \<exists>b. py_any f xs = Some b"
  by (induction xs) fastforce+

lemma py_filter_Some: "(\<And>x. x \<in> set xs \<Longrightarrow> \<exists>b. f x = Some b) \<Longrightarrow> \<exists>ys. py_filter f xs = Some ys"
  by (induction xs) fastforce+

lemma teacher_free_Some:
  assumes "grids_ok self L" "t \<in> set (teachers self)"
    "d \<in> set (days_order L)" "s \<in> set (slots_order L)"
  shows "\<exists>b. teacher_free L d s t = Some b"
proof -
  from assms have "has_cell (teacher_schedule L) (t_name t) d s" by (simp add: grids_ok_def)
  then show ?thesis by (auto simp: teacher_free_def has_cell_def)
qed

lemma classroom_free_Some:
  assumes "grids_ok self L" "c \<in> set (classrooms self)"
    "d \<in> set (days_order L)" "s \<in> set (slots_order L)"
  shows "\<exists>b. classroom_free L d s c = Some b"
proof -
  from assms have "has_cell (classroom_schedule L) c d s" by (simp add: grids_ok_def)
  then show ?thesis by (auto simp: classroom_free_def has_cell_def)
qed

lemma cohort_item_Some:
  assumes "grids_ok self L" "u \<in> set (subjects self)"
    "d \<in> set (days_order L)" "s \<in> set (slots_order L)"
  shows "\<exists>b. grid_item (cohort_schedule L) (semester_of u) d s = Some b"
proof -
  from assms have "has_cell (cohort_schedule L) (semester_of u) d s" by (simp add: grids_ok_def)
  then show ?thesis by (auto simp: has_cell_def)
qed

lemma reasons_at_Some:
  assumes gok: "grids_ok self L" and u: "u \<in> set (subjects self)"
    and tfs: "set tfs \<subseteq> set (teachers self)"
    and d: "d \<in> set (days_order L)" and s: "s \<in> set (slots_order L)"
  shows "\<exists>r. reasons_at self L u tfs d s = Some r"
proof -
  obtain a where a: "py_any (teacher_free L d s) tfs = Some a"
    using py_any_Some[of tfs "teacher_free L d s"] teacher_free_Some[OF gok _ d s] tfs by blast
  obtain b where b: "py_any (classroom_free L d s) (classrooms self) = Some b"
    using py_any_Some[of "classrooms self" "classroom_free L d s"]
      classroom_free_Some[OF gok _ d s] by blast
  obtain c where c: "grid_item (cohort_schedule L) (semester_of u) d s = Some c"
    using cohort_item_Some[OF gok u d s] by blast
  show ?thesis by (simp add: reasons_at_def a b c)
qed

lemma build_reasons_Some:
  assumes gok: "grids_ok self L" and u: "u \<in> set (subjects self)"
    and tfs: "set tfs \<subseteq> set (teachers self)"
  shows "\<exists>r. build_reasons self L u tfs = Some r"
proof (cases "tfs = []")
  case True
  then show ?thesis by (simp add: build_reasons_def)
next
  case False
  have "\<exists>y. for_each (slots_order L) (\<lambda>slot. reasons_at self L u tfs d slot) = Some y"
    if "d \<in> set (days_order L)" for d
    using for_each_Some[of "slots_order L" "\<lambda>slot. reasons_at self L u tfs d slot"]
      reasons_at_Some[OF gok u tfs that] by blast
  then obtain rs where "for_each (days_order L) (\<lambda>day.
      for_each (slots_order L) (\<lambda>slot. reasons_at self L u tfs day slot)) = Some rs"
    using for_each_Some[of "days_order L"
        "\<lambda>day. for_each (slots_order L) (\<lambda>slot. reasons_at self L u tfs day slot)"] by blast
  with False show ?thesis by (simp add: build_reasons_def)
qed

lemma suggest_slots_Some:
  assumes gok: "grids_ok self L" and u: "u \<in> set (subjects self)"
    and tfs: "set tfs \<subseteq> set (teachers self)" and d: "d \<in> set (days_order L)"
  shows "set ss \<subseteq> set (slots_order L) \<Longrightarrow> \<exists>r. suggest_slots self L u tfs d ss sg = Some r"
proof (induction ss arbitrary: sg)
  case Nil
  then show ?case by simp
next
  case (Cons s ss)
  then have s: "s \<in> set (slots_order L)" and ss: "set ss \<subseteq> set (slots_order L)" by simp_all
  obtain c where c: "grid_item (cohort_schedule L) (semester_of u) d s = Some c"
    using cohort_item_Some[OF gok u d s] by blast
  obtain ft where ft: "py_filter (teacher_free L d s) tfs = Some ft"
    using py_filter_Some[of tfs "teacher_free L d s"] teacher_free_Some[OF gok _ d s] tfs by blast
  obtain fc where fc: "py_filter (classroom_free L d s) (classrooms self) = Some fc"
    using py_filter_Some[of "classrooms self" "classroom_free L d s"]
      classroom_free_Some[OF gok _ d s] by blast
  show ?case using Cons.IH[OF ss] by (simp add: c ft fc Let_def)
qed

lemma suggest_days_Some:
  assumes gok: "grids_ok self L" and u: "u \<in> set (subjects self)"
    and tfs: "set tfs \<subseteq> set (teachers self)"
  shows "set ds \<subseteq> set (days_order L) \<Longrightarrow> \<exists>r. suggest_days self L u tfs ds sg = Some r"
proof (induction ds arbitrary: sg)
  case Nil
  then show ?case by simp
next
  case (Cons d ds)
  then have d: "d \<in> set (days_order L)" and ds: "set ds \<subseteq> set (days_order L)" by simp_all
  obtain r where r: "suggest_slots self L u tfs d (slots_order L) sg = Some r"
    using suggest_slots_Some[OF gok u tfs d, of "slots_order L" sg] by auto
  show ?case using Cons.IH[OF ds] by (simp add: r)
qed

lemma Inv_conflicts: "Inv (self\<lparr>conflicts := cs\<rparr>) L = Inv self L"
  by (simp add: Inv_def grids_ok_def)

lemma process_subject_ok:
  assumes inv: "Inv self L" and u: "u \<in> set (subjects self)"
  shows "\<exists>self' L'. process_subject self L u = Some (self', L') \<and> Inv self' L' \<and>
           lframe L L' \<and> subject_step u self self'"
proof -
  define req where "req = sessions_required u"
  from inv have gok: "grids_ok self L" by (simp add: Inv_def)
  obtain feasible where f: "all_candidate_assignments self L u = Some feasible"
    and fok: "\<forall>cand\<in>set feasible. cand_ok self L cand"
    using all_candidate_assignments_ok[OF gok] by blast
  define st0 where "st0 = \<lparr>ps_self = self, ps_locals = L, placed = 0,
      used_positions = {}, used_days = {}\<rparr>"
  define fd where "fd = set (map (\<lambda>(d, s, t, c). d) feasible)"
  have "Inv (ps_self st0) (ps_locals st0)"
    "\<forall>cand\<in>set feasible. cand_ok (ps_self st0) (ps_locals st0) cand"
    "u \<in> set (subjects (ps_self st0))"
    using inv fok u by (simp_all add: st0_def)
  from pass1_ok[OF this, of req fd]
  obtain st1 where p1: "pass1 u req fd feasible st0 = Some st1"
    and i1: "Inv (ps_self st1) (ps_locals st1)" and l1: "lframe L (ps_locals st1)"
    and g1: "grew u self (ps_self st1) (placed st1)"
    and b1: "0 \<le> placed st1" "placed st1 \<le> req \<or> placed st1 = 0"
    by (auto simp: st0_def)
  have fr1: "frame self (ps_self st1)" using g1 by (simp add: grew_def)
  have "\<exists>st2. (if placed st1 < req then pass2 u req feasible st1 else Some st1) = Some st2 \<and>
      Inv (ps_self st2) (ps_locals st2) \<and> lframe L (ps_locals st2) \<and>
      grew u self (ps_self st2) (placed st2) \<and> 0 \<le> placed st2 \<and>
      (placed st2 \<le> req \<or> placed st2 = 0)"
  proof (cases "placed st1 < req")
    case False
    with i1 l1 g1 b1 show ?thesis by simp
  next
    case True
    have "\<forall>cand\<in>set feasible. cand_ok (ps_self st1) (ps_locals st1) cand"
      using fok cand_ok_frame[OF fr1 l1] by simp
    moreover have "u \<in> set (subjects (ps_self st1))" using u fr1 by (simp add: frame_def)
    ultimately obtain st2 where p2: "pass2 u req feasible st1 = Some st2"
      and i2: "Inv (ps_self st2) (ps_locals st2)"
      and l2: "lframe (ps_locals st1) (ps_locals st2)"
      and g2: "grew u (ps_self st1) (ps_self st2) (placed st2 - placed st1)"
      and b2: "placed st1 \<le> placed st2" "placed st2 \<le> req \<or> placed st2 = placed st1"
      using pass2_ok[OF i1, of feasible u req] by blast
    have "grew u self (ps_self st2) (placed st2)"
      using grew_trans[OF g1 g2] by simp
    with True p2 i2 lframe_trans[OF l1 l2] b1 b2 show ?thesis by auto
  qed
  then obtain st2 where p2: "(if placed st1 < req then pass2 u req feasible st1 else Some st1) = Some st2"
    and i2: "Inv (ps_self st2) (ps_locals st2)" and l2: "lframe L (ps_locals st2)"
    and g2: "grew u self (ps_self st2) (placed st2)"
    and b2: "0 \<le> placed st2" "placed st2 \<le> req \<or> placed st2 = 0"
    by blast
  from g2 obtain new where fr2: "frame self (ps_self st2)"
    and cf2: "conflicts (ps_self st2) = conflicts self"
    and tt2: "timetable (ps_self st2) = timetable self @ new"
    and len: "int (length new) = placed st2" and fs: "\<forall>e\<in>set new. from_subject u e"
    by (auto simp: grew_def)
  have bound: "int (length new) \<le> max 0 req" using b2 len by auto
  show ?thesis
  proof (cases "placed st2 < req")
    case False
    have "process_subject self L u = Some (ps_self st2, ps_locals st2)"
      using f p1 p2 False
      by (cases "placed st1 < req")
        (simp_all add: process_subject_def Let_def req_def fd_def st0_def)
    moreover have "subject_step u self (ps_self st2)"
      unfolding subject_step_def short_for_def using fr2 tt2 fs cf2 len False bound
      by (auto simp: req_def)
    ultimately show ?thesis using i2 l2 by blast
  next
    case True
    have gok2: "grids_ok (ps_self st2) (ps_locals st2)" using i2 by (simp add: Inv_def)
    have u2: "u \<in> set (subjects (ps_self st2))" using u fr2 by (simp add: frame_def)
    have tfs: "set (teachers_for (ps_locals st2) u) \<subseteq> set (teachers (ps_self st2))"
      using teachers_for_sub[OF gok2] .
    obtain rs where rs: "build_reasons (ps_self st2) (ps_locals st2) u
        (teachers_for (ps_locals st2) u) = Some rs"
      using build_reasons_Some[OF gok2 u2 tfs] by blast
    obtain sg where sg: "suggest_days (ps_self st2) (ps_locals st2) u
        (teachers_for (ps_locals st2) u) (days_order (ps_locals st2)) [] = Some sg"
      using suggest_days_Some[OF gok2 u2 tfs, of "days_order (ps_locals st2)" "[]"] by auto
    define self' where "self' = (ps_self st2)\<lparr>conflicts := conflicts (ps_self st2) @
        [Shortfall (semester_of u) (s_name u) (req - placed st2) sg rs]\<rparr>"
    have "process_subject self L u = Some (self', ps_locals st2)"
      using f p1 p2 True rs sg
      by (cases "placed st1 < req")
        (simp_all add: process_subject_def Let_def req_def fd_def st0_def self'_def)
    moreover have "subject_step u self self'"
      unfolding subject_step_def short_for_def using fr2 tt2 fs cf2 len True bound
      by (auto simp: req_def self'_def frame_def)
    moreover have "Inv self' (ps_locals st2)" using i2 by (simp add: self'_def Inv_conflicts)
    ultimately show ?thesis using l2 by blast
  qed
qed

lemma subject_step_frame: "subject_step u a b \<Longrightarrow> frame a b"
  by (simp add: subject_step_def)

lemma subjects_loop_ok:
  assumes "Inv self L" "set ss \<subseteq> set (subjects self)"
  shows "\<exists>self' L'. subjects_loop ss self L = Some (self', L') \<and> Inv self' L' \<and>
           lframe L L' \<and> steps ss self self'"
  using assms
proof (induction ss arbitrary: self L)
  case Nil
  then show ?case by (simp add: lframe_refl)
next
  case (Cons u ss)
  then have u: "u \<in> set (subjects self)" by simp
  obtain self1 L1 where p: "process_subject self L u = Some (self1, L1)"
    and i: "Inv self1 L1" and l: "lframe L L1" and st: "subject_step u self self1"
    using process_subject_ok[OF Cons.prems(1) u] by blast
  have "set ss \<subseteq> set (subjects self1)"
    using Cons.prems(2) subject_step_frame[OF st] by (simp add: frame_def)
  from Cons.IH[OF i this] obtain self' L' where
    r: "subjects_loop ss self1 L1 = Some (self', L')" and i': "Inv self' L'"
    and l': "lframe L1 L'" and st': "steps ss self1 self'" by blast
  have "subjects_loop (u # ss) self L = Some (self', L')" using p r by simp
  moreover have "steps (u # ss) self self'" using st st' by auto
  ultimately show ?case using i' lframe_trans[OF l l'] by blast
qed

section \<open>The conflict scan\<close>

lemma booked_shape: "booked L e \<Longrightarrow> placed_shape e"
  unfolding booked_def placed_shape_def by blast

lemma shape_well_formed: "placed_shape e \<Longrightarrow> well_formed e"
  by (auto simp: placed_shape_def well_formed_def)

lemma item_Some: "f \<noteq> Absent \<Longrightarrow> \<exists>v. item f = Some v"
  by (cases f) (simp_all add: item_def)

lemma sa_map_of:
  "map_of (setdefault_append k v m) k' =
     (if k' = k then Some ((case map_of m k of None \<Rightarrow> [] | Some vs \<Rightarrow> vs) @ [v])
      else map_of m k')"
  by (induction m) auto

lemma sa_keys: "fst ` set (setdefault_append k v m) = insert k (fst ` set m)"
proof (induction m)
  case Nil
  then show ?case by simp
next
  case (Cons p m)
  obtain k' vs where p: "p = (k', vs)" by (cases p)
  show ?case using Cons.IH by (cases "k = k'") (auto simp: p)
qed

lemma sa_distinct: "distinct (map fst m) \<Longrightarrow> distinct (map fst (setdefault_append k v m))"
proof (induction m)
  case Nil
  then show ?case by simp
next
  case (Cons p m)
  obtain k' vs where p: "p = (k', vs)" by (cases p)
  show ?case
  proof (cases "k = k'")
    case True
    with Cons.prems show ?thesis by (simp add: p)
  next
    case False
    have "k' \<notin> fst ` set (setdefault_append k v m)"
      using Cons.prems False by (simp add: sa_keys p)
    with Cons False show ?thesis by (simp add: p)
  qed
qed

lemma sa_vals_in: "vals_in m A \<Longrightarrow> v \<in> A \<Longrightarrow> vals_in (setdefault_append k v m) A"
proof (induction m)
  case Nil
  then show ?case by (simp add: vals_in_def)
next
  case (Cons p m)
  obtain k' vs where p: "p = (k', vs)" by (cases p)
  from Cons.prems have "vals_in m A" "set vs \<subseteq> A" by (auto simp: vals_in_def p)
  with Cons.IH Cons.prems(2) show ?case by (cases "k = k'") (auto simp: p vals_in_def)
qed

lemma gf_distinct:
  "distinct (map fst m) \<Longrightarrow> distinct (map fst (fold (\<lambda>e. setdefault_append (kf e) e) es m))"
  by (induction es arbitrary: m) (simp_all add: sa_distinct)

lemma gf_map_of:
  "map_of (fold (\<lambda>e. setdefault_append (kf e) e) es m) k =
     (if \<exists>e\<in>set es. kf e = k
      then Some ((case map_of m k of None \<Rightarrow> [] | Some vs \<Rightarrow> vs) @ filter (\<lambda>e. kf e = k) es)
      else map_of m k)"
proof (induction es arbitrary: m)
  case Nil
  then show ?case by simp
next
  case (Cons e es)
  show ?case by (auto simp: Cons.IH sa_map_of)
qed

lemma gf_items:
  assumes "(k, vs) \<in> set (fold (\<lambda>e. setdefault_append (kf e) e) es [])"
  shows "vs = filter (\<lambda>e. kf e = k) es"
proof -
  have "distinct (map fst (fold (\<lambda>e. setdefault_append (kf e) e) es []))"
    by (rule gf_distinct) simp
  with assms have "map_of (fold (\<lambda>e. setdefault_append (kf e) e) es []) k = Some vs"
    by simp
  then show ?thesis by (simp add: gf_map_of split: if_splits)
qed

lemma index_entries_fold:
  "\<forall>e\<in>set es. e_day e \<noteq> Absent \<and> e_time_slot e \<noteq> Absent \<Longrightarrow>
   index_entries es m = Some (fold (\<lambda>e. setdefault_append (cell_of e) e) es m)"
proof (induction es arbitrary: m)
  case Nil
  then show ?case by simp
next
  case (Cons e es)
  then obtain d s where "item (e_day e) = Some d" "item (e_time_slot e) = Some s"
    using item_Some by (metis list.set_intros(1))
  with Cons show ?case by (simp add: cell_of_def)
qed

lemma group_entries_fold:
  "\<forall>e\<in>set es. e_teacher e \<noteq> Absent \<Longrightarrow>
   group_entries es (tm, cm, hm) =
     Some (fold (\<lambda>e. setdefault_append (teacher_key e) e) es tm,
           fold (\<lambda>e. explode_classrooms (classrooms_of e) e) es cm,
           fold (\<lambda>e. setdefault_append (cohort_key e) e) es hm)"
proof (induction es arbitrary: tm cm hm)
  case Nil
  then show ?case by simp
next
  case (Cons e es)
  then obtain t where "item (e_teacher e) = Some t"
    using item_Some by (metis list.set_intros(1))
  with Cons show ?case by (simp add: teacher_key_def cohort_key_def)
qed

lemma explode_vals_in: "vals_in m A \<Longrightarrow> e \<in> A \<Longrightarrow> vals_in (explode_classrooms cs e m) A"
  by (induction cs arbitrary: m) (simp_all add: sa_vals_in)

lemma fold_sa_vals_in:
  "vals_in m A \<Longrightarrow> set es \<subseteq> A \<Longrightarrow> vals_in (fold (\<lambda>e. setdefault_append (kf e) e) es m) A"
  by (induction es arbitrary: m) (simp_all add: sa_vals_in)

lemma fold_explode_vals_in:
  "vals_in m A \<Longrightarrow> set es \<subseteq> A \<Longrightarrow>
   vals_in (fold (\<lambda>e. explode_classrooms (classrooms_of e) e) es m) A"
  by (induction es arbitrary: m) (simp_all add: explode_vals_in)

lemma subjects_of_Some: "\<forall>e\<in>set arr. e_subject e \<noteq> Absent \<Longrightarrow> \<exists>ss. subjects_of arr = Some ss"
  unfolding subjects_of_def using those_map_Some[of arr "\<lambda>x. item (e_subject x)"] item_Some
  by blast

lemma collisions_Some:
  "vals_in m A \<Longrightarrow> \<forall>e\<in>A. e_subject e \<noteq> Absent \<Longrightarrow> \<exists>cs. collisions mk m = Some cs"
proof (induction m)
  case Nil
  then show ?case by simp
next
  case (Cons p m)
  obtain k arr where p: "p = (k, arr)" by (cases p)
  from Cons.prems have "set arr \<subseteq> A" and rest: "vals_in m A" by (auto simp: vals_in_def p)
  with Cons.prems(2) obtain ss where ss: "subjects_of arr = Some ss"
    using subjects_of_Some[of arr] by blast
  from Cons.IH[OF rest Cons.prems(2)] obtain cs where "collisions mk m = Some cs" by blast
  with ss show ?case by (simp add: p)
qed

lemma collisions_Nil: "\<forall>(k, arr)\<in>set m. length arr \<le> 1 \<Longrightarrow> collisions mk m = Some []"
  by (induction m) auto

lemma for_each_Nil: "\<forall>x\<in>set xs. f x = Some [] \<Longrightarrow> for_each xs f = Some []"
proof -
  assume a: "\<forall>x\<in>set xs. f x = Some []"
  then have "those (map f xs) = Some (map (\<lambda>x. []) xs)"
    by (induction xs) simp_all
  then show ?thesis by (simp add: for_each_def)
qed

lemma scan_group_Some:
  assumes "\<forall>e\<in>set es. well_formed e"
  shows "\<exists>cs. scan_group ((d, s), es) = Some cs"
proof -
  have t: "\<forall>e\<in>set es. e_teacher e \<noteq> Absent" and sub: "\<forall>e\<in>set es. e_subject e \<noteq> Absent"
    using assms by (simp_all add: well_formed_def)
  have v0: "vals_in [] (set es)" by (simp add: vals_in_def)
  obtain tc where tc: "collisions (\<lambda>t. TeacherConflict t d s)
      (fold (\<lambda>e. setdefault_append (teacher_key e) e) es []) = Some tc"
    using collisions_Some[OF fold_sa_vals_in[OF v0 subset_refl] sub] by blast
  obtain cc where cc: "collisions (\<lambda>c. ClassroomConflict c d s)
      (fold (\<lambda>e. explode_classrooms (classrooms_of e) e) es []) = Some cc"
    using collisions_Some[OF fold_explode_vals_in[OF v0 subset_refl] sub] by blast
  obtain sc where sc: "collisions (\<lambda>h. StudentConflict h d s)
      (fold (\<lambda>e. setdefault_append (cohort_key e) e) es []) = Some sc"
    using collisions_Some[OF fold_sa_vals_in[OF v0 subset_refl] sub] by blast
  show ?thesis by (simp add: scan_group_def group_entries_fold[OF t] tc cc sc)
qed

lemma scan_conflicts_Some:
  assumes "\<forall>e\<in>set tt. well_formed e"
  shows "\<exists>cs. scan_conflicts tt = Some cs"
proof -
  have ds: "\<forall>e\<in>set tt. e_day e \<noteq> Absent \<and> e_time_slot e \<noteq> Absent"
    using assms by (simp add: well_formed_def)
  define indexed where "indexed = fold (\<lambda>e. setdefault_append (cell_of e) e) tt []"
  have "vals_in indexed (set tt)"
    unfolding indexed_def by (rule fold_sa_vals_in) (simp_all add: vals_in_def)
  then have "\<exists>y. scan_group g = Some y" if "g \<in> set indexed" for g
  proof -
    obtain d s es where g: "g = ((d, s), es)" by (cases g) auto
    with that \<open>vals_in indexed (set tt)\<close> have "set es \<subseteq> set tt" by (auto simp: vals_in_def)
    with assms have "\<forall>e\<in>set es. well_formed e" by blast
    from scan_group_Some[OF this] g show ?thesis by simp
  qed
  then obtain cs where "for_each indexed scan_group = Some cs"
    using for_each_Some[of indexed scan_group] by blast
  then show ?thesis by (simp add: scan_conflicts_def index_entries_fold[OF ds] indexed_def)
qed

lemma sorted_wrt_all_related:
  "sorted_wrt (\<lambda>a b. \<not> R a b) xs \<Longrightarrow> (\<And>a b. a \<in> set xs \<Longrightarrow> b \<in> set xs \<Longrightarrow> R a b) \<Longrightarrow>
   length xs \<le> 1"
  by (cases xs; cases "tl xs") auto

lemma explode_singleton_fold:
  "\<forall>e\<in>set es. \<exists>c. e_classrooms e = Val [c] \<Longrightarrow>
   fold (\<lambda>e. explode_classrooms (classrooms_of e) e) es m =
   fold (\<lambda>e. setdefault_append (hd (classrooms_of e)) e) es m"
  by (induction es arbitrary: m) (auto simp: classrooms_of_def)

lemma scan_group_Nil:
  assumes shape: "\<forall>e\<in>set es. placed_shape e"
    and cell: "\<forall>e\<in>set es. cell_of e = (d, s)"
    and nc: "sorted_wrt (\<lambda>a b. \<not> clash a b) es"
  shows "scan_group ((d, s), es) = Some []"
proof -
  have t: "\<forall>e\<in>set es. e_teacher e \<noteq> Absent"
    using shape by (auto simp: placed_shape_def)
  have single: "\<forall>e\<in>set es. \<exists>c. e_classrooms e = Val [c]"
    using shape by (auto simp: placed_shape_def)
  have same_cell: "e_day a = e_day b \<and> e_time_slot a = e_time_slot b"
    if "a \<in> set es" "b \<in> set es" for a b
  proof -
    from that cell have "cell_of a = cell_of b" by simp
    moreover from that shape have "placed_shape a" "placed_shape b" by blast+
    ultimately show ?thesis by (auto simp: cell_of_def placed_shape_def item_def)
  qed
  have short: "length (filter P es) \<le> 1"
    if "\<And>a b. a \<in> set es \<Longrightarrow> b \<in> set es \<Longrightarrow> P a \<Longrightarrow> P b \<Longrightarrow>
         e_teacher a = e_teacher b \<or> set (classrooms_of a) \<inter> set (classrooms_of b) \<noteq> {} \<or>
         get_default (e_semester a) General = get_default (e_semester b) General" for P
  proof (rule sorted_wrt_all_related[where R = clash])
    show "sorted_wrt (\<lambda>a b. \<not> clash a b) (filter P es)" using nc by (rule sorted_wrt_filter)
  next
    fix a b assume "a \<in> set (filter P es)" "b \<in> set (filter P es)"
    then have ab: "a \<in> set es" "b \<in> set es" "P a" "P b" by simp_all
    with that[OF ab] same_cell[OF ab(1,2)] show "clash a b" by (simp add: clash_def)
  qed
  have tm: "\<forall>(k, arr)\<in>set (fold (\<lambda>e. setdefault_append (teacher_key e) e) es []). length arr \<le> 1"
  proof (clarify)
    fix k arr assume "(k, arr) \<in> set (fold (\<lambda>e. setdefault_append (teacher_key e) e) es [])"
    then have arr: "arr = filter (\<lambda>e. teacher_key e = k) es" by (rule gf_items)
    have "e_teacher a = e_teacher b" if "a \<in> set es" "b \<in> set es"
      "teacher_key a = k" "teacher_key b = k" for a b
    proof -
      from that shape have "placed_shape a" "placed_shape b" by blast+
      with that(3,4) show ?thesis by (auto simp: teacher_key_def placed_shape_def item_def)
    qed
    then show "length arr \<le> 1" unfolding arr by (intro short) blast
  qed
  have cm: "\<forall>(k, arr)\<in>set (fold (\<lambda>e. explode_classrooms (classrooms_of e) e) es []). length arr \<le> 1"
  proof (clarify)
    fix k arr assume "(k, arr) \<in> set (fold (\<lambda>e. explode_classrooms (classrooms_of e) e) es [])"
    then have "(k, arr) \<in> set (fold (\<lambda>e. setdefault_append (hd (classrooms_of e)) e) es [])"
      by (simp add: explode_singleton_fold[OF single])
    then have arr: "arr = filter (\<lambda>e. hd (classrooms_of e) = k) es" by (rule gf_items)
    have "set (classrooms_of a) \<inter> set (classrooms_of b) \<noteq> {}" if "a \<in> set es" "b \<in> set es"
      "hd (classrooms_of a) = k" "hd (classrooms_of b) = k" for a b
    proof -
      from that single obtain ca cb where "e_classrooms a = Val [ca]" "e_classrooms b = Val [cb]"
        by blast
      with that(3,4) show ?thesis by (simp add: classrooms_of_def)
    qed
    then show "length arr \<le> 1" unfolding arr by (intro short) blast
  qed
  have hm: "\<forall>(k, arr)\<in>set (fold (\<lambda>e. setdefault_append (cohort_key e) e) es []). length arr \<le> 1"
  proof (clarify)
    fix k arr assume "(k, arr) \<in> set (fold (\<lambda>e. setdefault_append (cohort_key e) e) es [])"
    then have arr: "arr = filter (\<lambda>e. cohort_key e = k) es" by (rule gf_items)
    show "length arr \<le> 1" unfolding arr by (intro short) (simp add: cohort_key_def)
  qed
  show ?thesis
    by (simp add: scan_group_def group_entries_fold[OF t] collisions_Nil[OF tm]
        collisions_Nil[OF cm] collisions_Nil[OF hm])
qed

lemma scan_conflicts_Nil:
  assumes shape: "\<forall>e\<in>set tt. placed_shape e"
    and nc: "sorted_wrt (\<lambda>a b. \<not> clash a b) tt"
  shows "scan_conflicts tt = Some []"
proof -
  have ds: "\<forall>e\<in>set tt. e_day e \<noteq> Absent \<and> e_time_slot e \<noteq> Absent"
    using shape by (auto simp: placed_shape_def)
  define indexed where "indexed = fold (\<lambda>e. setdefault_append (cell_of e) e) tt []"
  have "scan_group g = Some []" if "g \<in> set indexed" for g
  proof -
    obtain d s es where g: "g = ((d, s), es)" by (cases g) auto
    with that have es: "es = filter (\<lambda>e. cell_of e = (d, s)) tt"
      unfolding indexed_def by (intro gf_items) simp
    have "scan_group ((d, s), es) = Some []"
    proof (rule scan_group_Nil)
      show "\<forall>e\<in>set es. placed_shape e" using shape by (simp add: es)
      show "\<forall>e\<in>set es. cell_of e = (d, s)" by (simp add: es)
      show "sorted_wrt (\<lambda>a b. \<not> clash a b) es" unfolding es using nc by (rule sorted_wrt_filter)
    qed
    with g show ?thesis by simp
  qed
  then have "for_each indexed scan_group = Some []" by (intro for_each_Nil) blast
  then show ?thesis by (simp add: scan_conflicts_def index_entries_fold[OF ds] indexed_def)
qed

section \<open>The whole of generate\<close>

lemma cohorts_mem: "u \<in> set ss \<Longrightarrow> semester_of u \<in> set (cohorts ss)"
  by (auto simp: cohorts_def Let_def)

lemma Inv_init:
  "Inv (self\<lparr>timetable := [], conflicts := []\<rparr>) (init_locals (self\<lparr>timetable := [], conflicts := []\<rparr>))"
proof -
  have "set ts \<subseteq> set (teachers self)"
    if "map_of (index_teachers (teachers self) []) k = Some ts" for k ts
    using index_teachers_sub[OF that, of "set (teachers self)"] by simp
  then show ?thesis
    by (simp add: Inv_def grids_ok_def init_locals_unfold Let_def has_cell_new_grid cohorts_mem)
qed

lemma count_occurrences_Some:
  "\<forall>e\<in>set es. e_subject e \<noteq> Absent \<Longrightarrow> \<exists>occ. count_occurrences es m = Some occ"
proof (induction es arbitrary: m)
  case Nil
  then show ?case by simp
next
  case (Cons e es)
  then obtain v where "item (e_subject e) = Some v" using item_Some by (metis list.set_intros(1))
  with Cons show ?case by (simp add: Let_def)
qed

lemma validate_subjects_effect:
  "\<exists>va. validate_subjects ss occ self = self\<lparr>conflicts := conflicts self @ va\<rparr> \<and>
        (\<forall>c\<in>set va. is_validation c)"
proof (induction ss arbitrary: self)
  case Nil
  show ?case by (rule exI[of _ "[]"]) simp
next
  case (Cons u ss)
  define count where "count = int (case map_of occ (Some (s_name u), semester_of u) of
      None \<Rightarrow> 0 | Some n \<Rightarrow> n)"
  show ?case
  proof (cases "count < sessions_required u")
    case False
    with Cons.IH[of self] show ?thesis by (simp add: Let_def count_def)
  next
    case True
    define v where "v = Validation (semester_of u) (s_name u) (sessions_required u - count)"
    from Cons.IH[of "self\<lparr>conflicts := conflicts self @ [v]\<rparr>"]
    obtain va where va: "validate_subjects ss occ (self\<lparr>conflicts := conflicts self @ [v]\<rparr>) =
        self\<lparr>conflicts := conflicts self @ [v]\<rparr>\<lparr>conflicts := (conflicts self @ [v]) @ va\<rparr>"
      and all: "\<forall>c\<in>set va. is_validation c" by auto
    have "validate_subjects (u # ss) occ self = self\<lparr>conflicts := conflicts self @ (v # va)\<rparr>"
      using True va by (simp add: Let_def count_def v_def)
    moreover have "\<forall>c\<in>set (v # va). is_validation c" using all by (simp add: v_def)
    ultimately show ?thesis by blast
  qed
qed

lemma steps_frame: "steps ss a c \<Longrightarrow> frame a c"
proof (induction ss arbitrary: a)
  case Nil
  then show ?case by (simp add: frame_refl)
next
  case (Cons u ss)
  then show ?case using frame_trans subject_step_frame by fastforce
qed

lemma generate_ok:
  "\<exists>self2 L va.
     generate self =
       Some (self2\<lparr>conflicts := conflicts self2 @ va\<rparr>,
             \<lparr>r_timetable = timetable self2, r_conflicts = conflicts self2 @ va\<rparr>) \<and>
     Inv self2 L \<and> steps (subjects self) (self\<lparr>timetable := [], conflicts := []\<rparr>) self2 \<and>
     scan_conflicts (timetable self2) = Some [] \<and> (\<forall>c\<in>set va. is_validation c)"
proof -
  define self1 where "self1 = self\<lparr>timetable := [], conflicts := []\<rparr>"
  have i1: "Inv self1 (init_locals self1)" unfolding self1_def by (rule Inv_init)
  have "set (subjects self1) \<subseteq> set (subjects self1)" by simp
  from subjects_loop_ok[OF i1 this] obtain self2 L where
    loop: "subjects_loop (subjects self1) self1 (init_locals self1) = Some (self2, L)"
    and i2: "Inv self2 L" and st: "steps (subjects self1) self1 self2" by blast
  have shapes: "\<forall>e\<in>set (timetable self2). placed_shape e"
    using i2 booked_shape by (auto simp: Inv_def)
  have nc: "sorted_wrt (\<lambda>a b. \<not> clash a b) (timetable self2)" using i2 by (simp add: Inv_def)
  have scan: "scan_conflicts (timetable self2) = Some []"
    using scan_conflicts_Nil[OF shapes nc] .
  then have det: "detect_conflicts self2 = Some self2" by (simp add: detect_conflicts_def)
  have "\<forall>e\<in>set (timetable self2). e_subject e \<noteq> Absent"
    using shapes by (auto simp: placed_shape_def)
  then obtain occ where occ: "count_occurrences (timetable self2) [] = Some occ"
    using count_occurrences_Some by blast
  obtain va where va: "validate_subjects (subjects self2) occ self2 =
      self2\<lparr>conflicts := conflicts self2 @ va\<rparr>" and all: "\<forall>c\<in>set va. is_validation c"
    using validate_subjects_effect by blast
  have "generate self = Some (self2\<lparr>conflicts := conflicts self2 @ va\<rparr>,
      \<lparr>r_timetable = timetable self2, r_conflicts = conflicts self2 @ va\<rparr>)"
    using loop det occ va by (simp add: generate_unfold Let_def self1_def)
  moreover have "steps (subjects self) self1 self2" using st by (simp add: self1_def)
  ultimately show ?thesis using i2 scan all unfolding self1_def by blast
qed

lemma generate_detail:
  "\<exists>self2 va occ.
     generate self =
       Some (self2\<lparr>conflicts := conflicts self2 @ va\<rparr>,
             \<lparr>r_timetable = timetable self2, r_conflicts = conflicts self2 @ va\<rparr>) \<and>
     steps (subjects self) (self\<lparr>timetable := [], conflicts := []\<rparr>) self2 \<and>
     (\<forall>e\<in>set (timetable self2). placed_shape e) \<and>
     count_occurrences (timetable self2) [] = Some occ \<and>
     validate_subjects (subjects self) occ self2 = self2\<lparr>conflicts := conflicts self2 @ va\<rparr>"
proof -
  define self1 where "self1 = self\<lparr>timetable := [], conflicts := []\<rparr>"
  have i1: "Inv self1 (init_locals self1)" unfolding self1_def by (rule Inv_init)
  have "set (subjects self1) \<subseteq> set (subjects self1)" by simp
  from subjects_loop_ok[OF i1 this] obtain self2 L where
    loop: "subjects_loop (subjects self1) self1 (init_locals self1) = Some (self2, L)"
    and i2: "Inv self2 L" and st: "steps (subjects self1) self1 self2" by blast
  have shapes: "\<forall>e\<in>set (timetable self2). placed_shape e"
    using i2 booked_shape by (auto simp: Inv_def)
  have nc: "sorted_wrt (\<lambda>a b. \<not> clash a b) (timetable self2)" using i2 by (simp add: Inv_def)
  have "scan_conflicts (timetable self2) = Some []"
    using scan_conflicts_Nil[OF shapes nc] .
  then have det: "detect_conflicts self2 = Some self2" by (simp add: detect_conflicts_def)
  have "\<forall>e\<in>set (timetable self2). e_subject e \<noteq> Absent"
    using shapes by (auto simp: placed_shape_def)
  then obtain occ where occ: "count_occurrences (timetable self2) [] = Some occ"
    using count_occurrences_Some by blast
  have sub: "subjects self2 = subjects self"
    using steps_frame[OF st] by (simp add: frame_def self1_def)
  obtain va where va: "validate_subjects (subjects self2) occ self2 =
      self2\<lparr>conflicts := conflicts self2 @ va\<rparr>"
    using validate_subjects_effect by blast
  have "generate self = Some (self2\<lparr>conflicts := conflicts self2 @ va\<rparr>,
      \<lparr>r_timetable = timetable self2, r_conflicts = conflicts self2 @ va\<rparr>)"
    using loop det occ va by (simp add: generate_unfold Let_def self1_def)
  moreover have "steps (subjects self) self1 self2" using st by (simp add: self1_def)
  ultimately show ?thesis using shapes occ va sub unfolding self1_def by auto
qed

section \<open>What generate reads of the generator object\<close>

lemma place_entry_semesters:
  "place_entry (with_semesters x self) L u t c d s =
   map_option (\<lambda>(g, L'). (with_semesters x g, L')) (place_entry self L u t c d s)"
  by (simp add: place_entry_def Let_def with_semesters_def split: Option.bind_split)

lemma classrooms_semesters: "classrooms (with_semesters x self) = classrooms self"
  by (simp add: with_semesters_def)

lemma candidates_semesters:
  "all_candidate_assignments (with_semesters x self) L u = all_candidate_assignments self L u"
  unfolding all_candidate_assignments_def classrooms_semesters by (rule refl)

lemma pass1_action_semesters:
  "pass1_action req fd (ps_with_semesters x st) d s = pass1_action req fd st d s"
  by (simp add: pass1_action_def ps_with_semesters_def)

lemma pass1_semesters:
  "pass1 u req fd cands (ps_with_semesters x st) =
   map_option (ps_with_semesters x) (pass1 u req fd cands st)"
proof (induction cands arbitrary: st)
  case Nil
  then show ?case by simp
next
  case (Cons cand cands)
  obtain d s t c where cand: "cand = (d, s, t, c)" by (cases cand)
  have upd: "ps_with_semesters x st\<lparr>ps_self := with_semesters x g, ps_locals := L',
        used_positions := P, used_days := D, placed := n\<rparr> =
      ps_with_semesters x (st\<lparr>ps_self := g, ps_locals := L', used_positions := P,
        used_days := D, placed := n\<rparr>)" for g L' P D n
    by (simp add: ps_with_semesters_def)
  have sel: "ps_self (ps_with_semesters x st) = with_semesters x (ps_self st)"
    "ps_locals (ps_with_semesters x st) = ps_locals st"
    "used_positions (ps_with_semesters x st) = used_positions st"
    "used_days (ps_with_semesters x st) = used_days st"
    "placed (ps_with_semesters x st) = placed st"
    by (simp_all add: ps_with_semesters_def)
  show ?case
  proof (cases "pass1_action req fd st d s")
    case Break
    then show ?thesis by (simp add: cand pass1_action_semesters)
  next
    case Continue
    then show ?thesis by (simp add: cand pass1_action_semesters Cons.IH)
  next
    case Attempt
    show ?thesis
    proof (cases "can_place (ps_locals st) u t c d s")
      case False
      with Attempt show ?thesis by (simp add: cand pass1_action_semesters Cons.IH sel)
    next
      case True
      show ?thesis
      proof (cases "place_entry (ps_self st) (ps_locals st) u t c d s")
        case None
        with Attempt True show ?thesis
          by (simp add: cand pass1_action_semesters sel place_entry_semesters)
      next
        case (Some p)
        obtain g L' where p: "p = (g, L')" by (cases p)
        with Attempt True Some show ?thesis
          by (simp add: cand pass1_action_semesters sel place_entry_semesters upd Cons.IH)
      qed
    qed
  qed
qed

lemma pass2_semesters:
  "pass2 u req cands (ps_with_semesters x st) =
   map_option (ps_with_semesters x) (pass2 u req cands st)"
proof (induction cands arbitrary: st)
  case Nil
  then show ?case by simp
next
  case (Cons cand cands)
  obtain d s t c where cand: "cand = (d, s, t, c)" by (cases cand)
  have upd: "ps_with_semesters x st\<lparr>ps_self := with_semesters x g, ps_locals := L',
        placed := n\<rparr> =
      ps_with_semesters x (st\<lparr>ps_self := g, ps_locals := L', placed := n\<rparr>)" for g L' n
    by (simp add: ps_with_semesters_def)
  have sel: "ps_self (ps_with_semesters x st) = with_semesters x (ps_self st)"
    "ps_locals (ps_with_semesters x st) = ps_locals st"
    "placed (ps_with_semesters x st) = placed st"
    by (simp_all add: ps_with_semesters_def)
  show ?case
  proof (cases "placed st \<ge> req")
    case True
    then show ?thesis by (simp add: cand sel)
  next
    case lt: False
    show ?thesis
    proof (cases "can_place (ps_locals st) u t c d s")
      case False
      with lt show ?thesis by (simp add: cand Cons.IH sel)
    next
      case True
      show ?thesis
      proof (cases "place_entry (ps_self st) (ps_locals st) u t c d s")
        case None
        with lt True show ?thesis by (simp add: cand sel place_entry_semesters)
      next
        case (Some p)
        obtain g L' where p: "p = (g, L')" by (cases p)
        with lt True Some show ?thesis
          by (simp add: cand sel place_entry_semesters upd Cons.IH)
      qed
    qed
  qed
qed

lemma reasons_at_semesters:
  "reasons_at (with_semesters x self) L u tfs d s = reasons_at self L u tfs d s"
  unfolding reasons_at_def classrooms_semesters by (rule refl)

lemma reasons_semesters:
  "build_reasons (with_semesters x self) L u tfs = build_reasons self L u tfs"
  unfolding build_reasons_def reasons_at_semesters by (rule refl)

lemma suggest_slots_semesters:
  "suggest_slots (with_semesters x self) L u tfs d ss sg = suggest_slots self L u tfs d ss sg"
proof (induction ss arbitrary: sg)
  case Nil
  then show ?case by simp
next
  case (Cons s ss)
  show ?case unfolding suggest_slots.simps classrooms_semesters Cons.IH by (rule refl)
qed

lemma suggest_days_semesters:
  "suggest_days (with_semesters x self) L u tfs ds sg = suggest_days self L u tfs ds sg"
proof (induction ds arbitrary: sg)
  case Nil
  then show ?case by simp
next
  case (Cons d ds)
  show ?case unfolding suggest_days.simps suggest_slots_semesters Cons.IH by (rule refl)
qed

lemma process_subject_semesters:
  "process_subject (with_semesters x self) L u =
   map_option (\<lambda>(g, L'). (with_semesters x g, L')) (process_subject self L u)"
proof -
  define req where "req = sessions_required u"
  show ?thesis
  proof (cases "all_candidate_assignments self L u")
    case None
    then show ?thesis by (simp add: process_subject_def candidates_semesters)
  next
    case (Some feasible)
    define fd where "fd = set (map (\<lambda>(d, s, t, c). d) feasible)"
    define st0 where "st0 = \<lparr>ps_self = self, ps_locals = L, placed = 0,
        used_positions = {}, used_days = {}\<rparr>"
    have st0': "\<lparr>ps_self = with_semesters x self, ps_locals = L, placed = 0,
        used_positions = {}, used_days = {}\<rparr> = ps_with_semesters x st0"
      by (simp add: st0_def ps_with_semesters_def)
    define tail :: "pstate \<Rightarrow> (generator \<times> locals) option"
      where "tail = (\<lambda>st2. if placed st2 < req then
          do {
            reasons \<leftarrow> build_reasons (ps_self st2) (ps_locals st2) u
                        (teachers_for (ps_locals st2) u);
            suggestions \<leftarrow> suggest_days (ps_self st2) (ps_locals st2) u
                              (teachers_for (ps_locals st2) u) (days_order (ps_locals st2)) [];
            Some ((ps_self st2)\<lparr>conflicts := conflicts (ps_self st2) @
                     [Shortfall (semester_of u) (s_name u) (req - placed st2)
                        suggestions reasons]\<rparr>,
                  ps_locals st2)
          }
        else Some (ps_self st2, ps_locals st2))"
    define mid :: "pstate \<Rightarrow> pstate option"
      where "mid = (\<lambda>st1. if placed st1 < req then pass2 u req feasible st1
        else Some st1)"
    have ps: "process_subject g L u = pass1 u req fd feasible
        \<lparr>ps_self = g, ps_locals = L, placed = 0, used_positions = {}, used_days = {}\<rparr>
        \<bind> (\<lambda>st1. mid st1 \<bind> tail)"
      if "all_candidate_assignments g L u = Some feasible" for g
      using that unfolding process_subject_def Let_def req_def fd_def mid_def tail_def
      by simp
    have sel: "ps_self (ps_with_semesters x st) = with_semesters x (ps_self st)"
      "ps_locals (ps_with_semesters x st) = ps_locals st"
      "placed (ps_with_semesters x st) = placed st" for st
      by (simp_all add: ps_with_semesters_def)
    have cf: "conflicts (with_semesters x g) = conflicts g"
      "(with_semesters x g)\<lparr>conflicts := cs\<rparr> = with_semesters x (g\<lparr>conflicts := cs\<rparr>)" for g cs
      by (simp_all add: with_semesters_def)
    have tail: "tail (ps_with_semesters x st) =
        map_option (\<lambda>(g, L'). (with_semesters x g, L')) (tail st)" for st
    proof (cases "placed st < req")
      case False
      then show ?thesis by (simp add: tail_def sel)
    next
      case True
      then show ?thesis
        by (cases "build_reasons (ps_self st) (ps_locals st) u (teachers_for (ps_locals st) u)";
            cases "suggest_days (ps_self st) (ps_locals st) u (teachers_for (ps_locals st) u)
                     (days_order (ps_locals st)) []")
          (simp_all add: tail_def sel cf reasons_semesters suggest_days_semesters)
    qed
    have mid: "mid (ps_with_semesters x st) = map_option (ps_with_semesters x) (mid st)" for st
      by (cases "placed st < req") (simp_all add: mid_def sel pass2_semesters)
    have "process_subject (with_semesters x self) L u =
        pass1 u req fd feasible (ps_with_semesters x st0) \<bind> (\<lambda>st1. mid st1 \<bind> tail)"
      using ps[of "with_semesters x self"] Some by (simp add: candidates_semesters st0')
    also have "\<dots> = map_option (\<lambda>(g, L'). (with_semesters x g, L'))
        (pass1 u req fd feasible st0 \<bind> (\<lambda>st1. mid st1 \<bind> tail))"
    proof (cases "pass1 u req fd feasible st0")
      case None
      then show ?thesis by (simp add: pass1_semesters)
    next
      case (Some st1)
      then show ?thesis by (cases "mid st1") (simp_all add: pass1_semesters mid tail)
    qed
    also have "\<dots> = map_option (\<lambda>(g, L'). (with_semesters x g, L')) (process_subject self L u)"
      using ps[of self] Some by (simp add: st0_def)
    finally show ?thesis .
  qed
qed

lemma subjects_loop_semesters:
  "subjects_loop ss (with_semesters x self) L =
   map_option (\<lambda>(g, L'). (with_semesters x g, L')) (subjects_loop ss self L)"
proof (induction ss arbitrary: self L)
  case Nil
  then show ?case by simp
next
  case (Cons u ss)
  show ?case
    by (cases "process_subject self L u") (auto simp: process_subject_semesters Cons.IH)
qed

lemma validate_subjects_semesters:
  "validate_subjects ss occ (with_semesters x self) =
   with_semesters x (validate_subjects ss occ self)"
proof (induction ss arbitrary: self)
  case Nil
  then show ?case by simp
next
  case (Cons u ss)
  have "with_semesters x self\<lparr>conflicts := cs\<rparr> = with_semesters x (self\<lparr>conflicts := cs\<rparr>)" for cs
    by (simp add: with_semesters_def)
  moreover have "conflicts (with_semesters x self) = conflicts self"
    by (simp add: with_semesters_def)
  ultimately show ?case by (simp add: Let_def Cons.IH)
qed

lemma generate_in_semesters:
  "map_option snd (generate_in order (self\<lparr>semesters := x\<rparr>)) =
   map_option snd (generate_in order self)"
proof -
  define self1 where "self1 = self\<lparr>timetable := [], conflicts := []\<rparr>"
  have s1: "self\<lparr>semesters := x, timetable := [], conflicts := []\<rparr> = with_semesters x self1"
    by (simp add: self1_def with_semesters_def)
  have il: "init_locals_in order (with_semesters x self1) = init_locals_in order self1"
    by (simp add: init_locals_in_def with_semesters_def)
  have sel: "subjects (with_semesters x g) = subjects g"
    "timetable (with_semesters x g) = timetable g"
    "conflicts (with_semesters x g) = conflicts g" for g
    by (simp_all add: with_semesters_def)
  have det: "detect_conflicts (with_semesters x g) = map_option (with_semesters x) (detect_conflicts g)" for g
    by (simp add: detect_conflicts_def with_semesters_def split: Option.bind_split)
  show ?thesis
  proof (cases "subjects_loop (subjects self1) self1 (init_locals_in order self1)")
    case None
    then show ?thesis
      by (simp add: generate_in_def Let_def s1 il sel subjects_loop_semesters self1_def[symmetric])
  next
    case (Some p)
    obtain self2 L where p: "p = (self2, L)" by (cases p)
    show ?thesis
    proof (cases "detect_conflicts self2")
      case None
      with Some p show ?thesis
        by (simp add: generate_in_def Let_def s1 il sel subjects_loop_semesters det
            self1_def[symmetric])
    next
      case d: (Some self3)
      show ?thesis
        using Some p d
        by (cases "count_occurrences (timetable self3) []")
          (simp_all add: generate_in_def Let_def s1 il sel subjects_loop_semesters det
            validate_subjects_semesters self1_def[symmetric])
    qed
  qed
qed

lemma generate_semesters:
  "map_option snd (generate (self\<lparr>semesters := x\<rparr>)) = map_option snd (generate self)"
  by (simp add: generate_def generate_in_semesters)

lemma generate_in_resets:
  "generate_in order (self\<lparr>timetable := tt, conflicts := cs\<rparr>) = generate_in order self"
  by (simp add: generate_in_def)

lemma generate_in_inputs_only:
  assumes "teachers a = teachers b" "subjects a = subjects b" "classrooms a = classrooms b"
    "time_slots a = time_slots b" "days a = days b"
  shows "map_option snd (generate_in order a) = map_option snd (generate_in order b)"
proof -
  have "b = a\<lparr>semesters := semesters b, timetable := timetable b, conflicts := conflicts b\<rparr>"
    using assms by simp
  then have "map_option snd (generate_in order b) =
      map_option snd (generate_in order (a\<lparr>semesters := semesters b\<rparr>))"
    using generate_in_resets[where self = "a\<lparr>semesters := semesters b\<rparr>"
        and tt = "timetable b" and cs = "conflicts b" and order = order]
    by simp
  then show ?thesis by (simp add: generate_in_semesters)
qed

section \<open>The order in which the cohorts are iterated\<close>

lemma grid_get_map_of: "map_of g' = map_of g \<Longrightarrow> grid_get g' k d s = grid_get g k d s"
  by (simp add: grid_get_def)

lemma grid_item_map_of: "map_of g' = map_of g \<Longrightarrow> grid_item g' k d s = grid_item g k d s"
  by (simp add: grid_item_def)

lemma grid_mark_map_of:
  assumes "map_of g' = map_of g"
  shows "rel_option (\<lambda>a b. map_of b = map_of a) (grid_mark g k d s) (grid_mark g' k d s)"
proof (cases "map_of g k")
  case None
  then show ?thesis using assms by (simp add: grid_mark_def)
next
  case (Some dm)
  then show ?thesis using assms
    by (cases "map_of dm d") (simp_all add: grid_mark_def fun_eq_iff update_conv')
qed

lemma can_place_order:
  assumes "same_but_order L L'"
  shows "can_place L' = can_place L"
proof -
  from assms have eq: "teacher_schedule L' = teacher_schedule L"
    "classroom_schedule L' = classroom_schedule L"
    and m: "map_of (cohort_schedule L') = map_of (cohort_schedule L)"
    by (simp_all add: same_but_order_def)
  have g: "grid_get (cohort_schedule L') k d s = grid_get (cohort_schedule L) k d s" for k d s
    using m by (rule grid_get_map_of)
  show ?thesis unfolding can_place_def eq g by (rule refl)
qed

lemma place_entry_order:
  assumes "same_but_order L L'"
  shows "rel_option run_same_but_order
           (place_entry self L u t c d s) (place_entry self L' u t c d s)"
proof -
  from assms have eq: "teacher_schedule L' = teacher_schedule L"
    "classroom_schedule L' = classroom_schedule L" "cohort_load L' = cohort_load L"
    and m: "map_of (cohort_schedule L') = map_of (cohort_schedule L)"
    by (simp_all add: same_but_order_def)
  show ?thesis
  proof (cases "grid_mark (teacher_schedule L) (t_name t) d s")
    case None
    then show ?thesis by (simp add: place_entry_def Let_def eq)
  next
    case ts: (Some ts)
    show ?thesis
    proof (cases "grid_mark (classroom_schedule L) c d s")
      case None
      with ts show ?thesis by (simp add: place_entry_def Let_def eq)
    next
      case cs: (Some cs)
      from grid_mark_map_of[OF m, where k = "semester_of u" and d = d and s = s] ts cs assms
      show ?thesis
        by (cases "grid_mark (cohort_schedule L) (semester_of u) d s";
            cases "grid_mark (cohort_schedule L') (semester_of u) d s")
          (simp_all add: place_entry_def Let_def eq run_same_but_order_def same_but_order_def)
    qed
  qed
qed

lemma candidates_order:
  assumes "same_but_order L L'"
  shows "all_candidate_assignments self L' u = all_candidate_assignments self L u"
proof -
  from assms have eq: "subject_to_teachers L' = subject_to_teachers L"
    "days_order L' = days_order L" "slots_order L' = slots_order L"
    "teacher_schedule L' = teacher_schedule L" "cohort_load L' = cohort_load L"
    by (simp_all add: same_but_order_def)
  show ?thesis
    unfolding all_candidate_assignments_def teachers_for_def rank_slots_for_semester_def
      teacher_load_def eq can_place_order[OF assms]
    by (rule refl)
qed

lemma pass1_order:
  "ps_same_but_order st st' \<Longrightarrow>
   rel_option ps_same_but_order (pass1 u req fd cands st) (pass1 u req fd cands st')"
proof (induction cands arbitrary: st st')
  case Nil
  then show ?case by simp
next
  case (Cons cand cands)
  obtain d s t c where cand: "cand = (d, s, t, c)" by (cases cand)
  from Cons.prems have eq: "ps_self st' = ps_self st" "placed st' = placed st"
    "used_positions st' = used_positions st" "used_days st' = used_days st"
    and l: "same_but_order (ps_locals st) (ps_locals st')"
    by (simp_all add: ps_same_but_order_def)
  have act: "pass1_action req fd st' d s = pass1_action req fd st d s"
    by (simp add: pass1_action_def eq)
  have cp: "can_place (ps_locals st') u t c d s = can_place (ps_locals st) u t c d s"
    by (simp add: can_place_order[OF l])
  show ?case
  proof (cases "pass1_action req fd st d s")
    case Break
    then show ?thesis using Cons.prems by (simp add: cand act)
  next
    case Continue
    then show ?thesis using Cons.IH[OF Cons.prems] by (simp add: cand act)
  next
    case Attempt
    show ?thesis
    proof (cases "can_place (ps_locals st) u t c d s")
      case False
      with Attempt Cons.IH[OF Cons.prems] show ?thesis by (simp add: cand act cp)
    next
      case True
      from place_entry_order[OF l, where self = "ps_self st" and u = u and t = t and c = c
          and d = d and s = s]
      show ?thesis
      proof (cases rule: option.rel_cases)
        case None
        with Attempt True show ?thesis by (simp add: cand act cp eq)
      next
        case (Some p q)
        obtain g M where p: "p = (g, M)" by (cases p)
        obtain g' M' where q: "q = (g', M')" by (cases q)
        from Some(3) p q have gg: "g' = g" and mm: "same_but_order M M'"
          by (simp_all add: run_same_but_order_def)
        have "ps_same_but_order
            (st\<lparr>ps_self := g, ps_locals := M,
                used_positions := insert (d, s) (used_positions st),
                used_days := insert d (used_days st), placed := placed st + 1\<rparr>)
            (st'\<lparr>ps_self := g, ps_locals := M',
                used_positions := insert (d, s) (used_positions st),
                used_days := insert d (used_days st), placed := placed st + 1\<rparr>)"
          using mm by (simp add: ps_same_but_order_def)
        from Cons.IH[OF this] Attempt True Some(1,2) p q gg show ?thesis
          by (simp add: cand act cp eq)
      qed
    qed
  qed
qed

lemma pass2_order:
  "ps_same_but_order st st' \<Longrightarrow>
   rel_option ps_same_but_order (pass2 u req cands st) (pass2 u req cands st')"
proof (induction cands arbitrary: st st')
  case Nil
  then show ?case by simp
next
  case (Cons cand cands)
  obtain d s t c where cand: "cand = (d, s, t, c)" by (cases cand)
  from Cons.prems have eq: "ps_self st' = ps_self st" "placed st' = placed st"
    and l: "same_but_order (ps_locals st) (ps_locals st')"
    by (simp_all add: ps_same_but_order_def)
  have cp: "can_place (ps_locals st') u t c d s = can_place (ps_locals st) u t c d s"
    by (simp add: can_place_order[OF l])
  show ?case
  proof (cases "placed st \<ge> req")
    case True
    then show ?thesis using Cons.prems by (simp add: cand eq)
  next
    case lt: False
    show ?thesis
    proof (cases "can_place (ps_locals st) u t c d s")
      case False
      with lt Cons.IH[OF Cons.prems] show ?thesis by (simp add: cand cp eq)
    next
      case True
      from place_entry_order[OF l, where self = "ps_self st" and u = u and t = t and c = c
          and d = d and s = s]
      show ?thesis
      proof (cases rule: option.rel_cases)
        case None
        with lt True show ?thesis by (simp add: cand cp eq)
      next
        case (Some p q)
        obtain g M where p: "p = (g, M)" by (cases p)
        obtain g' M' where q: "q = (g', M')" by (cases q)
        from Some(3) p q have gg: "g' = g" and mm: "same_but_order M M'"
          by (simp_all add: run_same_but_order_def)
        have "ps_same_but_order
            (st\<lparr>ps_self := g, ps_locals := M, placed := placed st + 1\<rparr>)
            (st'\<lparr>ps_self := g, ps_locals := M', placed := placed st + 1\<rparr>)"
          using mm Cons.prems by (simp add: ps_same_but_order_def)
        from Cons.IH[OF this] lt True Some(1,2) p q gg show ?thesis
          by (simp add: cand cp eq)
      qed
    qed
  qed
qed

lemma free_order:
  assumes "same_but_order L L'"
  shows "teacher_free L' = teacher_free L" and "classroom_free L' = classroom_free L"
    and "grid_item (cohort_schedule L') = grid_item (cohort_schedule L)"
proof -
  from assms have eq: "teacher_schedule L' = teacher_schedule L"
    "classroom_schedule L' = classroom_schedule L"
    and m: "map_of (cohort_schedule L') = map_of (cohort_schedule L)"
    by (simp_all add: same_but_order_def)
  show "teacher_free L' = teacher_free L"
    by (intro ext) (simp only: teacher_free_def eq)
  show "classroom_free L' = classroom_free L"
    by (intro ext) (simp only: classroom_free_def eq)
  show "grid_item (cohort_schedule L') = grid_item (cohort_schedule L)"
    by (intro ext) (rule grid_item_map_of[OF m])
qed

lemma reasons_order:
  assumes "same_but_order L L'"
  shows "build_reasons self L' u tfs = build_reasons self L u tfs"
proof -
  from assms have eq: "days_order L' = days_order L" "slots_order L' = slots_order L"
    by (simp_all add: same_but_order_def)
  show ?thesis
    unfolding build_reasons_def reasons_at_def eq free_order[OF assms] by (rule refl)
qed

lemma suggest_slots_order:
  assumes "same_but_order L L'"
  shows "suggest_slots self L' u tfs d ss sg = suggest_slots self L u tfs d ss sg"
proof (induction ss arbitrary: sg)
  case Nil
  then show ?case by simp
next
  case (Cons s ss)
  show ?case unfolding suggest_slots.simps free_order[OF assms] Cons.IH by (rule refl)
qed

lemma suggest_days_order:
  assumes "same_but_order L L'"
  shows "suggest_days self L' u tfs ds sg = suggest_days self L u tfs ds sg"
proof (induction ds arbitrary: sg)
  case Nil
  then show ?case by simp
next
  case (Cons d ds)
  from assms have eq: "slots_order L' = slots_order L" by (simp add: same_but_order_def)
  show ?case
    unfolding suggest_days.simps suggest_slots_order[OF assms] eq Cons.IH by (rule refl)
qed

lemma process_subject_order:
  assumes l: "same_but_order L L'"
  shows "rel_option run_same_but_order (process_subject self L u) (process_subject self L' u)"
proof -
  define req where "req = sessions_required u"
  show ?thesis
  proof (cases "all_candidate_assignments self L u")
    case None
    then show ?thesis by (simp add: process_subject_def candidates_order[OF l])
  next
    case (Some feasible)
    define fd where "fd = set (map (\<lambda>(d, s, t, c). d) feasible)"
    define tail :: "pstate \<Rightarrow> (generator \<times> locals) option"
      where "tail = (\<lambda>st2. if placed st2 < req then
          do {
            reasons \<leftarrow> build_reasons (ps_self st2) (ps_locals st2) u
                        (teachers_for (ps_locals st2) u);
            suggestions \<leftarrow> suggest_days (ps_self st2) (ps_locals st2) u
                              (teachers_for (ps_locals st2) u) (days_order (ps_locals st2)) [];
            Some ((ps_self st2)\<lparr>conflicts := conflicts (ps_self st2) @
                     [Shortfall (semester_of u) (s_name u) (req - placed st2)
                        suggestions reasons]\<rparr>,
                  ps_locals st2)
          }
        else Some (ps_self st2, ps_locals st2))"
    define mid :: "pstate \<Rightarrow> pstate option"
      where "mid = (\<lambda>st1. if placed st1 < req then pass2 u req feasible st1
        else Some st1)"
    have ps: "process_subject self M u = pass1 u req fd feasible
        \<lparr>ps_self = self, ps_locals = M, placed = 0, used_positions = {}, used_days = {}\<rparr>
        \<bind> (\<lambda>st1. mid st1 \<bind> tail)"
      if "all_candidate_assignments self M u = Some feasible" for M
      using that unfolding process_subject_def Let_def req_def fd_def mid_def tail_def
      by simp
    have tail: "rel_option run_same_but_order (tail st) (tail st')"
      if r: "ps_same_but_order st st'" for st st'
    proof -
      from r have eq: "ps_self st' = ps_self st" "placed st' = placed st"
        and m: "same_but_order (ps_locals st) (ps_locals st')"
        by (simp_all add: ps_same_but_order_def)
      from m have tf: "teachers_for (ps_locals st') u = teachers_for (ps_locals st) u"
        "days_order (ps_locals st') = days_order (ps_locals st)"
        by (simp_all add: teachers_for_def same_but_order_def)
      show ?thesis
      proof (cases "placed st < req")
        case False
        then show ?thesis using m by (simp add: tail_def eq run_same_but_order_def)
      next
        case True
        then show ?thesis using m
          by (cases "build_reasons (ps_self st) (ps_locals st) u (teachers_for (ps_locals st) u)";
              cases "suggest_days (ps_self st) (ps_locals st) u (teachers_for (ps_locals st) u)
                       (days_order (ps_locals st)) []")
            (simp_all add: tail_def eq tf reasons_order[OF m] suggest_days_order[OF m]
              run_same_but_order_def)
      qed
    qed
    have mid: "rel_option ps_same_but_order (mid st) (mid st')"
      if r: "ps_same_but_order st st'" for st st'
    proof -
      from r have eq: "placed st' = placed st" by (simp add: ps_same_but_order_def)
      show ?thesis using r pass2_order[OF r, where u = u and req = req and cands = feasible]
        by (cases "placed st < req") (simp_all add: mid_def eq)
    qed
    have st0: "ps_same_but_order
        \<lparr>ps_self = self, ps_locals = L, placed = 0, used_positions = {}, used_days = {}\<rparr>
        \<lparr>ps_self = self, ps_locals = L', placed = 0, used_positions = {}, used_days = {}\<rparr>"
      using l by (simp add: ps_same_but_order_def)
    have both: "rel_option run_same_but_order (m1 \<bind> (\<lambda>st1. mid st1 \<bind> tail))
        (m2 \<bind> (\<lambda>st1. mid st1 \<bind> tail))"
      if "rel_option ps_same_but_order m1 m2" for m1 m2
      using that
    proof (cases rule: option.rel_cases)
      case None
      then show ?thesis by simp
    next
      case (Some a b)
      from mid[OF Some(3)] show ?thesis
      proof (cases rule: option.rel_cases)
        case None
        with Some show ?thesis by simp
      next
        case inner: (Some a' b')
        with Some tail[OF inner(3)] show ?thesis by simp
      qed
    qed
    from Some have s': "all_candidate_assignments self L' u = Some feasible"
      by (simp add: candidates_order[OF l])
    show ?thesis unfolding ps[OF Some] ps[OF s'] by (rule both) (rule pass1_order[OF st0])
  qed
qed

lemma subjects_loop_order:
  "same_but_order L L' \<Longrightarrow>
   rel_option run_same_but_order (subjects_loop ss self L) (subjects_loop ss self L')"
proof (induction ss arbitrary: self L L')
  case Nil
  then show ?case by (simp add: run_same_but_order_def)
next
  case (Cons u ss)
  from process_subject_order[OF Cons.prems, where self = self and u = u] show ?case
  proof (cases rule: option.rel_cases)
    case None
    then show ?thesis by simp
  next
    case (Some p q)
    obtain g M where p: "p = (g, M)" by (cases p)
    obtain g' M' where q: "q = (g', M')" by (cases q)
    from Some(3) p q have "g' = g" "same_but_order M M'"
      by (simp_all add: run_same_but_order_def)
    with Cons.IH[where L = M and L' = M' and self = g] Some(1,2) p q show ?thesis by simp
  qed
qed

lemma init_locals_order:
  "set o1 = set o2 \<Longrightarrow> same_but_order (init_locals_in o1 self) (init_locals_in o2 self)"
  by (auto simp: same_but_order_def init_locals_in_def Let_def new_grid_def map_of_dict_comp
      fun_eq_iff)

lemma generate_in_order:
  assumes "set o1 = set o2"
  shows "generate_in o1 self = generate_in o2 self"
proof -
  define self1 where "self1 = self\<lparr>timetable := [], conflicts := []\<rparr>"
  define rest :: "generator \<times> locals \<Rightarrow> (generator \<times> result) option"
    where "rest = (\<lambda>(self2, L).
        do {
          self3 \<leftarrow> detect_conflicts self2;
          occurrences \<leftarrow> count_occurrences (timetable self3) [];
          let self4 = validate_subjects (subjects self3) occurrences self3;
          Some (self4, \<lparr>r_timetable = timetable self4, r_conflicts = conflicts self4\<rparr>)
        })"
  have g: "generate_in order self =
      subjects_loop (subjects self1) self1 (init_locals_in order self1) \<bind> rest" for order
    unfolding generate_in_def Let_def self1_def rest_def by (rule refl)
  have r: "rest p = rest q" if "run_same_but_order p q" for p q
    using that by (cases p; cases q) (simp add: rest_def run_same_but_order_def)
  have "rel_option run_same_but_order
      (subjects_loop (subjects self1) self1 (init_locals_in o1 self1))
      (subjects_loop (subjects self1) self1 (init_locals_in o2 self1))"
    by (rule subjects_loop_order[OF init_locals_order[OF assms]])
  then show ?thesis
  proof (cases rule: option.rel_cases)
    case None
    then show ?thesis by (simp add: g)
  next
    case (Some p q)
    with r[OF Some(3)] show ?thesis by (simp add: g)
  qed
qed

section \<open>What generate reads of a subject\<close>

lemma place_entry_subjects:
  "place_entry (with_subjects x self) L u t c d s =
   map_option (\<lambda>(g, L'). (with_subjects x g, L')) (place_entry self L u t c d s)"
  by (simp add: place_entry_def Let_def with_subjects_def split: Option.bind_split)

lemma classrooms_subjects: "classrooms (with_subjects x self) = classrooms self"
  by (simp add: with_subjects_def)

lemma candidates_subjects:
  "all_candidate_assignments (with_subjects x self) L u = all_candidate_assignments self L u"
  unfolding all_candidate_assignments_def classrooms_subjects by (rule refl)

lemma pass1_action_subjects:
  "pass1_action req fd (ps_with_subjects x st) d s = pass1_action req fd st d s"
  by (simp add: pass1_action_def ps_with_subjects_def)

lemma pass1_subjects:
  "pass1 u req fd cands (ps_with_subjects x st) =
   map_option (ps_with_subjects x) (pass1 u req fd cands st)"
proof (induction cands arbitrary: st)
  case Nil
  then show ?case by simp
next
  case (Cons cand cands)
  obtain d s t c where cand: "cand = (d, s, t, c)" by (cases cand)
  have upd: "ps_with_subjects x st\<lparr>ps_self := with_subjects x g, ps_locals := L',
        used_positions := P, used_days := D, placed := n\<rparr> =
      ps_with_subjects x (st\<lparr>ps_self := g, ps_locals := L', used_positions := P,
        used_days := D, placed := n\<rparr>)" for g L' P D n
    by (simp add: ps_with_subjects_def)
  have sel: "ps_self (ps_with_subjects x st) = with_subjects x (ps_self st)"
    "ps_locals (ps_with_subjects x st) = ps_locals st"
    "used_positions (ps_with_subjects x st) = used_positions st"
    "used_days (ps_with_subjects x st) = used_days st"
    "placed (ps_with_subjects x st) = placed st"
    by (simp_all add: ps_with_subjects_def)
  show ?case
  proof (cases "pass1_action req fd st d s")
    case Break
    then show ?thesis by (simp add: cand pass1_action_subjects)
  next
    case Continue
    then show ?thesis by (simp add: cand pass1_action_subjects Cons.IH)
  next
    case Attempt
    show ?thesis
    proof (cases "can_place (ps_locals st) u t c d s")
      case False
      with Attempt show ?thesis by (simp add: cand pass1_action_subjects Cons.IH sel)
    next
      case True
      show ?thesis
      proof (cases "place_entry (ps_self st) (ps_locals st) u t c d s")
        case None
        with Attempt True show ?thesis
          by (simp add: cand pass1_action_subjects sel place_entry_subjects)
      next
        case (Some p)
        obtain g L' where p: "p = (g, L')" by (cases p)
        with Attempt True Some show ?thesis
          by (simp add: cand pass1_action_subjects sel place_entry_subjects upd Cons.IH)
      qed
    qed
  qed
qed

lemma pass2_subjects:
  "pass2 u req cands (ps_with_subjects x st) =
   map_option (ps_with_subjects x) (pass2 u req cands st)"
proof (induction cands arbitrary: st)
  case Nil
  then show ?case by simp
next
  case (Cons cand cands)
  obtain d s t c where cand: "cand = (d, s, t, c)" by (cases cand)
  have upd: "ps_with_subjects x st\<lparr>ps_self := with_subjects x g, ps_locals := L',
        placed := n\<rparr> =
      ps_with_subjects x (st\<lparr>ps_self := g, ps_locals := L', placed := n\<rparr>)" for g L' n
    by (simp add: ps_with_subjects_def)
  have sel: "ps_self (ps_with_subjects x st) = with_subjects x (ps_self st)"
    "ps_locals (ps_with_subjects x st) = ps_locals st"
    "placed (ps_with_subjects x st) = placed st"
    by (simp_all add: ps_with_subjects_def)
  show ?case
  proof (cases "placed st \<ge> req")
    case True
    then show ?thesis by (simp add: cand sel)
  next
    case lt: False
    show ?thesis
    proof (cases "can_place (ps_locals st) u t c d s")
      case False
      with lt show ?thesis by (simp add: cand Cons.IH sel)
    next
      case True
      show ?thesis
      proof (cases "place_entry (ps_self st) (ps_locals st) u t c d s")
        case None
        with lt True show ?thesis by (simp add: cand sel place_entry_subjects)
      next
        case (Some p)
        obtain g L' where p: "p = (g, L')" by (cases p)
        with lt True Some show ?thesis
          by (simp add: cand sel place_entry_subjects upd Cons.IH)
      qed
    qed
  qed
qed

lemma reasons_at_subjects:
  "reasons_at (with_subjects x self) L u tfs d s = reasons_at self L u tfs d s"
  unfolding reasons_at_def classrooms_subjects by (rule refl)

lemma reasons_subjects:
  "build_reasons (with_subjects x self) L u tfs = build_reasons self L u tfs"
  unfolding build_reasons_def reasons_at_subjects by (rule refl)

lemma suggest_slots_subjects:
  "suggest_slots (with_subjects x self) L u tfs d ss sg = suggest_slots self L u tfs d ss sg"
proof (induction ss arbitrary: sg)
  case Nil
  then show ?case by simp
next
  case (Cons s ss)
  show ?case unfolding suggest_slots.simps classrooms_subjects Cons.IH by (rule refl)
qed

lemma suggest_days_subjects:
  "suggest_days (with_subjects x self) L u tfs ds sg = suggest_days self L u tfs ds sg"
proof (induction ds arbitrary: sg)
  case Nil
  then show ?case by simp
next
  case (Cons d ds)
  show ?case unfolding suggest_days.simps suggest_slots_subjects Cons.IH by (rule refl)
qed

lemma process_subject_subjects:
  "process_subject (with_subjects x self) L u =
   map_option (\<lambda>(g, L'). (with_subjects x g, L')) (process_subject self L u)"
proof -
  define req where "req = sessions_required u"
  show ?thesis
  proof (cases "all_candidate_assignments self L u")
    case None
    then show ?thesis by (simp add: process_subject_def candidates_subjects)
  next
    case (Some feasible)
    define fd where "fd = set (map (\<lambda>(d, s, t, c). d) feasible)"
    define st0 where "st0 = \<lparr>ps_self = self, ps_locals = L, placed = 0,
        used_positions = {}, used_days = {}\<rparr>"
    have st0': "\<lparr>ps_self = with_subjects x self, ps_locals = L, placed = 0,
        used_positions = {}, used_days = {}\<rparr> = ps_with_subjects x st0"
      by (simp add: st0_def ps_with_subjects_def)
    define tail :: "pstate \<Rightarrow> (generator \<times> locals) option"
      where "tail = (\<lambda>st2. if placed st2 < req then
          do {
            reasons \<leftarrow> build_reasons (ps_self st2) (ps_locals st2) u
                        (teachers_for (ps_locals st2) u);
            suggestions \<leftarrow> suggest_days (ps_self st2) (ps_locals st2) u
                              (teachers_for (ps_locals st2) u) (days_order (ps_locals st2)) [];
            Some ((ps_self st2)\<lparr>conflicts := conflicts (ps_self st2) @
                     [Shortfall (semester_of u) (s_name u) (req - placed st2)
                        suggestions reasons]\<rparr>,
                  ps_locals st2)
          }
        else Some (ps_self st2, ps_locals st2))"
    define mid :: "pstate \<Rightarrow> pstate option"
      where "mid = (\<lambda>st1. if placed st1 < req then pass2 u req feasible st1
        else Some st1)"
    have ps: "process_subject g L u = pass1 u req fd feasible
        \<lparr>ps_self = g, ps_locals = L, placed = 0, used_positions = {}, used_days = {}\<rparr>
        \<bind> (\<lambda>st1. mid st1 \<bind> tail)"
      if "all_candidate_assignments g L u = Some feasible" for g
      using that unfolding process_subject_def Let_def req_def fd_def mid_def tail_def
      by simp
    have sel: "ps_self (ps_with_subjects x st) = with_subjects x (ps_self st)"
      "ps_locals (ps_with_subjects x st) = ps_locals st"
      "placed (ps_with_subjects x st) = placed st" for st
      by (simp_all add: ps_with_subjects_def)
    have cf: "conflicts (with_subjects x g) = conflicts g"
      "(with_subjects x g)\<lparr>conflicts := cs\<rparr> = with_subjects x (g\<lparr>conflicts := cs\<rparr>)" for g cs
      by (simp_all add: with_subjects_def)
    have tail: "tail (ps_with_subjects x st) =
        map_option (\<lambda>(g, L'). (with_subjects x g, L')) (tail st)" for st
    proof (cases "placed st < req")
      case False
      then show ?thesis by (simp add: tail_def sel)
    next
      case True
      then show ?thesis
        by (cases "build_reasons (ps_self st) (ps_locals st) u (teachers_for (ps_locals st) u)";
            cases "suggest_days (ps_self st) (ps_locals st) u (teachers_for (ps_locals st) u)
                     (days_order (ps_locals st)) []")
          (simp_all add: tail_def sel cf reasons_subjects suggest_days_subjects)
    qed
    have mid: "mid (ps_with_subjects x st) = map_option (ps_with_subjects x) (mid st)" for st
      by (cases "placed st < req") (simp_all add: mid_def sel pass2_subjects)
    have "process_subject (with_subjects x self) L u =
        pass1 u req fd feasible (ps_with_subjects x st0) \<bind> (\<lambda>st1. mid st1 \<bind> tail)"
      using ps[of "with_subjects x self"] Some by (simp add: candidates_subjects st0')
    also have "\<dots> = map_option (\<lambda>(g, L'). (with_subjects x g, L'))
        (pass1 u req fd feasible st0 \<bind> (\<lambda>st1. mid st1 \<bind> tail))"
    proof (cases "pass1 u req fd feasible st0")
      case None
      then show ?thesis by (simp add: pass1_subjects)
    next
      case (Some st1)
      then show ?thesis by (cases "mid st1") (simp_all add: pass1_subjects mid tail)
    qed
    also have "\<dots> = map_option (\<lambda>(g, L'). (with_subjects x g, L')) (process_subject self L u)"
      using ps[of self] Some by (simp add: st0_def)
    finally show ?thesis .
  qed
qed

lemma subjects_loop_subjects:
  "subjects_loop ss (with_subjects x self) L =
   map_option (\<lambda>(g, L'). (with_subjects x g, L')) (subjects_loop ss self L)"
proof (induction ss arbitrary: self L)
  case Nil
  then show ?case by simp
next
  case (Cons u ss)
  show ?case
    by (cases "process_subject self L u") (auto simp: process_subject_subjects Cons.IH)
qed

lemma validate_subjects_subjects:
  "validate_subjects ss occ (with_subjects x self) =
   with_subjects x (validate_subjects ss occ self)"
proof (induction ss arbitrary: self)
  case Nil
  then show ?case by simp
next
  case (Cons u ss)
  have "with_subjects x self\<lparr>conflicts := cs\<rparr> = with_subjects x (self\<lparr>conflicts := cs\<rparr>)" for cs
    by (simp add: with_subjects_def)
  moreover have "conflicts (with_subjects x self) = conflicts self"
    by (simp add: with_subjects_def)
  ultimately show ?case by (simp add: Let_def Cons.IH)
qed

lemma semester_of_sessions: "semester_of (u\<lparr>s_sessions_per_week := x\<rparr>) = semester_of u"
  by (simp add: semester_of_def)

lemma can_place_sessions:
  "can_place L (u\<lparr>s_sessions_per_week := x\<rparr>) t c d s = can_place L u t c d s"
  by (simp add: can_place_def semester_of_sessions)

lemma dept_codes_sessions:
  "extract_all_dept_codes (u\<lparr>s_sessions_per_week := x\<rparr>) = extract_all_dept_codes u"
  by (simp add: extract_all_dept_codes_def)

lemma place_entry_sessions:
  "place_entry self L (u\<lparr>s_sessions_per_week := x\<rparr>) t c d s = place_entry self L u t c d s"
  by (simp add: place_entry_def semester_of_sessions dept_codes_sessions)

lemma teachers_for_sessions:
  "teachers_for L (u\<lparr>s_sessions_per_week := x\<rparr>) = teachers_for L u"
  by (simp add: teachers_for_def)

lemma candidates_sessions:
  "all_candidate_assignments self L (u\<lparr>s_sessions_per_week := x\<rparr>) =
   all_candidate_assignments self L u"
  unfolding all_candidate_assignments_def semester_of_sessions teachers_for_sessions
    can_place_sessions by (rule refl)

lemma pass1_sessions:
  "pass1 (u\<lparr>s_sessions_per_week := x\<rparr>) req fd cands st = pass1 u req fd cands st"
proof (induction cands arbitrary: st)
  case Nil
  then show ?case by simp
next
  case (Cons cand cands)
  obtain d s t c where cand: "cand = (d, s, t, c)" by (cases cand)
  show ?case unfolding cand pass1.simps can_place_sessions place_entry_sessions Cons.IH
    by (rule refl)
qed

lemma pass2_sessions:
  "pass2 (u\<lparr>s_sessions_per_week := x\<rparr>) req cands st = pass2 u req cands st"
proof (induction cands arbitrary: st)
  case Nil
  then show ?case by simp
next
  case (Cons cand cands)
  obtain d s t c where cand: "cand = (d, s, t, c)" by (cases cand)
  show ?case unfolding cand pass2.simps can_place_sessions place_entry_sessions Cons.IH
    by (rule refl)
qed

lemma reasons_at_sessions:
  "reasons_at self L (u\<lparr>s_sessions_per_week := x\<rparr>) tfs d s = reasons_at self L u tfs d s"
  unfolding reasons_at_def semester_of_sessions by (rule refl)

lemma reasons_sessions:
  "build_reasons self L (u\<lparr>s_sessions_per_week := x\<rparr>) tfs = build_reasons self L u tfs"
  unfolding build_reasons_def reasons_at_sessions by (rule refl)

lemma suggest_slots_sessions:
  "suggest_slots self L (u\<lparr>s_sessions_per_week := x\<rparr>) tfs d ss sg =
   suggest_slots self L u tfs d ss sg"
proof (induction ss arbitrary: sg)
  case Nil
  then show ?case by simp
next
  case (Cons s ss)
  show ?case unfolding suggest_slots.simps semester_of_sessions Cons.IH by (rule refl)
qed

lemma suggest_days_sessions:
  "suggest_days self L (u\<lparr>s_sessions_per_week := x\<rparr>) tfs ds sg =
   suggest_days self L u tfs ds sg"
proof (induction ds arbitrary: sg)
  case Nil
  then show ?case by simp
next
  case (Cons d ds)
  show ?case unfolding suggest_days.simps suggest_slots_sessions Cons.IH by (rule refl)
qed

lemma process_subject_sessions:
  assumes "sessions_required (u\<lparr>s_sessions_per_week := x\<rparr>) = sessions_required u"
  shows "process_subject self L (u\<lparr>s_sessions_per_week := x\<rparr>) = process_subject self L u"
proof -
  have n: "s_name (u\<lparr>s_sessions_per_week := x\<rparr>) = s_name u" by simp
  show ?thesis
    unfolding process_subject_def assms candidates_sessions pass1_sessions pass2_sessions
      teachers_for_sessions reasons_sessions suggest_days_sessions semester_of_sessions n
    by (rule refl)
qed

lemma same_demand_refl: "same_demand a a"
  by (simp add: same_demand_def)

lemma same_demand_round:
  assumes "same_demand a b"
  shows "process_subject self L a = process_subject self L b"
proof -
  have b: "a\<lparr>s_sessions_per_week := s_sessions_per_week b\<rparr> = b"
    using assms by (simp add: same_demand_def)
  have "sessions_required (a\<lparr>s_sessions_per_week := s_sessions_per_week b\<rparr>) =
      sessions_required a"
    unfolding b using assms by (simp add: same_demand_def)
  from process_subject_sessions[OF this] show ?thesis unfolding b by simp
qed

lemma same_demand_loop:
  "list_all2 same_demand ss ss' \<Longrightarrow> subjects_loop ss self L = subjects_loop ss' self L"
proof (induction ss ss' arbitrary: self L rule: list_all2_induct)
  case Nil
  then show ?case by simp
next
  case (Cons a ss b ss')
  show ?case
    by (cases "process_subject self L b")
      (auto simp: same_demand_round[OF Cons.hyps(1)] Cons.IH)
qed

lemma same_demand_recount:
  "list_all2 same_demand ss ss' \<Longrightarrow> validate_subjects ss occ self = validate_subjects ss' occ self"
proof (induction ss ss' arbitrary: self rule: list_all2_induct)
  case Nil
  then show ?case by simp
next
  case (Cons a ss b ss')
  from Cons.hyps(1) have "s_name a = s_name b" "semester_of a = semester_of b"
    "sessions_required a = sessions_required b"
    by (simp_all add: same_demand_def semester_of_def)
  then show ?case by (simp add: Let_def Cons.IH)
qed

lemma same_demand_cohorts: "list_all2 same_demand ss ss' \<Longrightarrow> cohorts ss = cohorts ss'"
proof -
  assume "list_all2 same_demand ss ss'"
  then have "map semester_of ss = map semester_of ss'"
    by (induction rule: list_all2_induct) (simp_all add: same_demand_def semester_of_def)
  then show ?thesis by (simp add: cohorts_def)
qed

lemma generate_in_same_demand:
  assumes "list_all2 same_demand ss ss'"
  shows "map_option snd (generate_in order (self\<lparr>subjects := ss\<rparr>)) =
         map_option snd (generate_in order (self\<lparr>subjects := ss'\<rparr>))"
proof -
  define self1 where "self1 = self\<lparr>timetable := [], conflicts := []\<rparr>"
  define L0 where "L0 = init_locals_in order self1"
  have s1: "self\<lparr>subjects := x, timetable := [], conflicts := []\<rparr> = with_subjects x self1" for x
    by (simp add: self1_def with_subjects_def)
  have il: "init_locals_in order (with_subjects x self1) = L0" for x
    by (simp add: init_locals_in_def with_subjects_def L0_def)
  have sel: "subjects (with_subjects x g) = x"
    "timetable (with_subjects x g) = timetable g"
    "conflicts (with_subjects x g) = conflicts g" for g x
    by (simp_all add: with_subjects_def)
  have det: "detect_conflicts (with_subjects x g) = map_option (with_subjects x) (detect_conflicts g)"
    for g x
    by (simp add: detect_conflicts_def with_subjects_def split: Option.bind_split)
  define fin :: "subject list \<Rightarrow> generator \<Rightarrow> result option" where
    "fin = (\<lambda>x g. do {
        self3 \<leftarrow> detect_conflicts g;
        occ \<leftarrow> count_occurrences (timetable self3) [];
        let self4 = validate_subjects x occ self3;
        Some \<lparr>r_timetable = timetable self4, r_conflicts = conflicts self4\<rparr> })"
  have run: "map_option snd (generate_in order (self\<lparr>subjects := x\<rparr>)) =
      subjects_loop x self1 L0 \<bind> (\<lambda>(g, L). fin x g)" for x
  proof (cases "subjects_loop x self1 L0")
    case None
    then show ?thesis
      by (simp add: generate_in_def Let_def s1 il sel subjects_loop_subjects)
  next
    case (Some p)
    obtain self2 L where p: "p = (self2, L)" by (cases p)
    show ?thesis
    proof (cases "detect_conflicts self2")
      case None
      with Some p show ?thesis
        by (simp add: generate_in_def Let_def s1 il sel subjects_loop_subjects det fin_def)
    next
      case d: (Some self3)
      show ?thesis
        using Some p d
        by (cases "count_occurrences (timetable self3) []")
          (simp_all add: generate_in_def Let_def s1 il sel subjects_loop_subjects det
            validate_subjects_subjects fin_def)
    qed
  qed
  have "fin ss g = fin ss' g" for g
    by (simp add: fin_def same_demand_recount[OF assms])
  then show ?thesis by (simp add: run same_demand_loop[OF assms])
qed

lemma generate_same_demand:
  assumes "list_all2 same_demand ss ss'"
  shows "map_option snd (generate (self\<lparr>subjects := ss\<rparr>)) =
         map_option snd (generate (self\<lparr>subjects := ss'\<rparr>))"
  using generate_in_same_demand[OF assms] by (simp add: generate_def same_demand_cohorts[OF assms])

lemma pass1_done: "req \<le> placed st \<Longrightarrow> pass1 u req fd cands st = Some st"
  by (cases cands) (auto simp: pass1_action_def)

lemma process_subject_zero:
  assumes "grids_ok self L" and "sessions_required u \<le> 0"
  shows "process_subject self L u = Some (self, L)"
proof -
  obtain feasible where f: "all_candidate_assignments self L u = Some feasible"
    using all_candidate_assignments_ok[OF assms(1)] by blast
  define st0 where "st0 = \<lparr>ps_self = self, ps_locals = L, placed = 0,
      used_positions = {}, used_days = {}\<rparr>"
  have "pass1 u (sessions_required u) fd feasible st0 = Some st0" for fd
    using assms(2) by (intro pass1_done) (simp add: st0_def)
  moreover have "\<not> placed st0 < sessions_required u" using assms(2) by (simp add: st0_def)
  ultimately show ?thesis
    using f by (simp add: process_subject_def Let_def st0_def[symmetric]) (simp add: st0_def)
qed

lemma recount_zero:
  "sessions_required u \<le> 0 \<Longrightarrow>
   validate_subjects (u # rest) occ self = validate_subjects rest occ self"
  by (simp add: Let_def)

section \<open>Counting placed and missing sessions\<close>

lemma present_inj: "present a = present b \<Longrightarrow> a = b"
  by (cases a; cases b) (simp_all add: present_def)

lemma from_subject_key:
  "from_subject u e \<Longrightarrow> from_subject v e \<Longrightarrow> subject_key u = subject_key v"
  by (auto simp: from_subject_def subject_key_def dest: present_inj)

lemma key_from_subject: "subject_key v = subject_key u \<Longrightarrow> from_subject v = from_subject u"
  by (auto simp: from_subject_def subject_key_def fun_eq_iff)

lemma key_missing_of: "subject_key v = subject_key u \<Longrightarrow> missing_of v c = missing_of u c"
  by (cases c) (simp_all add: subject_key_def)

lemma key_counts:
  assumes "subject_key v = subject_key u"
  shows "placed_count tt v = placed_count tt u"
    and "missing_sessions cs v = missing_sessions cs u"
proof -
  have "missing_of v = missing_of u" using key_missing_of[OF assms] by (rule ext)
  then show "missing_sessions cs v = missing_sessions cs u" by (simp add: missing_sessions_def)
  show "placed_count tt v = placed_count tt u"
    by (simp add: placed_count_def key_from_subject[OF assms])
qed

lemma step_other:
  assumes "subject_step v a b" "subject_key v \<noteq> subject_key u"
  shows "placed_count (timetable b) u = placed_count (timetable a) u \<and>
         missing_sessions (conflicts b) u = missing_sessions (conflicts a) u"
proof -
  from assms(1) obtain new sh where tt: "timetable b = timetable a @ new"
    and fs: "\<forall>e\<in>set new. from_subject v e" and cf: "conflicts b = conflicts a @ sh"
    and sf: "short_for v (int (length new)) sh"
    by (auto simp: subject_step_def)
  have "filter (from_subject u) new = []"
    using fs assms(2) from_subject_key by (auto simp: filter_empty_conv)
  moreover have "concat (map (missing_of u) sh) = []"
    using sf assms(2) by (auto simp: short_for_def subject_key_def split: if_splits)
  ultimately show ?thesis by (simp add: placed_count_def missing_sessions_def tt cf)
qed

lemma step_same:
  assumes "subject_step u a b"
  shows "placed_count (timetable b) u + sum_list (missing_sessions (conflicts b) u) =
         placed_count (timetable a) u + sum_list (missing_sessions (conflicts a) u) +
         max 0 (sessions_required u)"
    and "missing_sessions (conflicts b) u =
         missing_sessions (conflicts a) u @
         (if placed_count (timetable b) u - placed_count (timetable a) u < sessions_required u
          then [sessions_required u - (placed_count (timetable b) u - placed_count (timetable a) u)]
          else [])"
proof -
  from assms obtain new sh where tt: "timetable b = timetable a @ new"
    and fs: "\<forall>e\<in>set new. from_subject u e" and cf: "conflicts b = conflicts a @ sh"
    and sf: "short_for u (int (length new)) sh"
    and le: "int (length new) \<le> max 0 (sessions_required u)"
    by (auto simp: subject_step_def)
  have f: "filter (from_subject u) new = new" using fs by (simp add: filter_id_conv)
  have d: "placed_count (timetable b) u - placed_count (timetable a) u = int (length new)"
    by (simp add: placed_count_def tt f)
  have m: "concat (map (missing_of u) sh) =
      (if int (length new) < sessions_required u
       then [sessions_required u - int (length new)] else [])"
    using sf by (auto simp: short_for_def)
  show "missing_sessions (conflicts b) u =
         missing_sessions (conflicts a) u @
         (if placed_count (timetable b) u - placed_count (timetable a) u < sessions_required u
          then [sessions_required u - (placed_count (timetable b) u - placed_count (timetable a) u)]
          else [])"
    unfolding d by (simp add: missing_sessions_def cf m)
  show "placed_count (timetable b) u + sum_list (missing_sessions (conflicts b) u) =
         placed_count (timetable a) u + sum_list (missing_sessions (conflicts a) u) +
         max 0 (sessions_required u)"
  proof (cases "int (length new) < sessions_required u")
    case True
    then have "max 0 (sessions_required u) = sessions_required u" by simp
    with True show ?thesis by (simp add: placed_count_def missing_sessions_def tt cf f m)
  next
    case False
    with le have "int (length new) = max 0 (sessions_required u)"
      by (simp add: max_def split: if_splits)
    with False show ?thesis by (simp add: placed_count_def missing_sessions_def tt cf f m)
  qed
qed

lemma step_round:
  assumes "subject_step u a b"
  shows "\<exists>new sh. timetable b = timetable a @ new \<and> conflicts b = conflicts a @ sh \<and>
           counted_round u (new, sh)"
proof -
  from assms obtain new sh where tt: "timetable b = timetable a @ new"
    and fs: "\<forall>e\<in>set new. from_subject u e" and cf: "conflicts b = conflicts a @ sh"
    and sf: "short_for u (int (length new)) sh"
    and le: "int (length new) \<le> max 0 (sessions_required u)"
    by (auto simp: subject_step_def)
  have "counted_round u (new, sh)"
  proof (cases "int (length new) < sessions_required u")
    case True
    with sf obtain sg rs where "sh = [Shortfall (semester_of u) (s_name u)
        (sessions_required u - int (length new)) sg rs]"
      by (auto simp: short_for_def)
    with True fs show ?thesis by (simp add: counted_round_def missing_sessions_def)
  next
    case False
    with sf have "sh = []" by (simp add: short_for_def)
    moreover from False le have "int (length new) = max 0 (sessions_required u)"
      by (simp add: max_def split: if_splits)
    ultimately show ?thesis using fs by (simp add: counted_round_def missing_sessions_def)
  qed
  with tt cf show ?thesis by blast
qed

lemma steps_rounds:
  "steps ss a c \<Longrightarrow>
   \<exists>rounds. list_all2 counted_round ss rounds \<and>
     timetable c = timetable a @ concat (map fst rounds) \<and>
     conflicts c = conflicts a @ concat (map snd rounds)"
proof (induction ss arbitrary: a)
  case Nil
  then show ?case by simp
next
  case (Cons v ss)
  then obtain b where st: "subject_step v a b" and rest: "steps ss b c" by auto
  from step_round[OF st] obtain new sh where b: "timetable b = timetable a @ new"
    "conflicts b = conflicts a @ sh" and r: "counted_round v (new, sh)" by blast
  from Cons.IH[OF rest] obtain rounds where rs: "list_all2 counted_round ss rounds"
    and c: "timetable c = timetable b @ concat (map fst rounds)"
    "conflicts c = conflicts b @ concat (map snd rounds)" by blast
  show ?case
    using r rs b c by (intro exI[of _ "(new, sh) # rounds"]) simp
qed

lemma steps_other:
  "steps ss a c \<Longrightarrow> subject_key u \<notin> subject_key ` set ss \<Longrightarrow>
   placed_count (timetable c) u = placed_count (timetable a) u \<and>
   missing_sessions (conflicts c) u = missing_sessions (conflicts a) u"
proof (induction ss arbitrary: a)
  case Nil
  then show ?case by simp
next
  case (Cons v ss)
  then obtain b where st: "subject_step v a b" and rest: "steps ss b c" by auto
  from Cons.prems(2) have "subject_key v \<noteq> subject_key u"
    "subject_key u \<notin> subject_key ` set ss" by auto
  with step_other[OF st] Cons.IH[OF rest] show ?case by simp
qed

lemma steps_counted:
  "steps ss a c \<Longrightarrow>
   placed_count (timetable c) u + sum_list (missing_sessions (conflicts c) u) =
   placed_count (timetable a) u + sum_list (missing_sessions (conflicts a) u) +
   sum_list (map (\<lambda>v. max 0 (sessions_required v)) (sharing ss u)) \<and>
   length (missing_sessions (conflicts c) u) \<le>
   length (missing_sessions (conflicts a) u) + length (sharing ss u)"
proof (induction ss arbitrary: a)
  case Nil
  then show ?case by (simp add: sharing_def)
next
  case (Cons v ss)
  then obtain b where st: "subject_step v a b" and rest: "steps ss b c" by auto
  note ih = Cons.IH[OF rest]
  show ?case
  proof (cases "subject_key v = subject_key u")
    case True
    have sh: "sharing (v # ss) u = v # sharing ss u" using True by (simp add: sharing_def)
    have "placed_count (timetable b) u + sum_list (missing_sessions (conflicts b) u) =
        placed_count (timetable a) u + sum_list (missing_sessions (conflicts a) u) +
        max 0 (sessions_required v)"
      using step_same(1)[OF st] by (simp add: key_counts[OF True])
    moreover have "length (missing_sessions (conflicts b) u) \<le>
        length (missing_sessions (conflicts a) u) + 1"
      using step_same(2)[OF st] by (simp add: key_counts[OF True])
    ultimately show ?thesis using ih by (simp add: sh)
  next
    case False
    then have sh: "sharing (v # ss) u = sharing ss u" by (simp add: sharing_def)
    from step_other[OF st False] ih show ?thesis by (simp add: sh)
  qed
qed

lemma sharing_Nil: "sharing ss u = [] \<Longrightarrow> subject_key u \<notin> subject_key ` set ss"
  by (auto simp: sharing_def filter_empty_conv)

lemma steps_single:
  "steps ss a c \<Longrightarrow> sharing ss u = [u] \<Longrightarrow>
   missing_sessions (conflicts c) u =
     missing_sessions (conflicts a) u @
     (if placed_count (timetable c) u - placed_count (timetable a) u < sessions_required u
      then [sessions_required u - (placed_count (timetable c) u - placed_count (timetable a) u)]
      else [])"
proof (induction ss arbitrary: a)
  case Nil
  then show ?case by (simp add: sharing_def)
next
  case (Cons v ss)
  then obtain b where st: "subject_step v a b" and rest: "steps ss b c" by auto
  show ?case
  proof (cases "subject_key v = subject_key u")
    case True
    with Cons.prems(2) have vu: "v = u" and none: "sharing ss u = []"
      by (simp_all add: sharing_def)
    from steps_other[OF rest sharing_Nil[OF none]] step_same(2)[OF st[unfolded vu]]
    show ?thesis by simp
  next
    case False
    with Cons.prems(2) have "sharing ss u = [u]" by (simp add: sharing_def)
    from Cons.IH[OF rest this] step_other[OF st False] show ?thesis by simp
  qed
qed

lemma steps_shortfalls:
  "steps ss a c \<Longrightarrow> \<exists>sh. conflicts c = conflicts a @ sh \<and> (\<forall>x\<in>set sh. is_shortfall x)"
proof (induction ss arbitrary: a)
  case Nil
  then show ?case by simp
next
  case (Cons v ss)
  then obtain b where st: "subject_step v a b" and rest: "steps ss b c" by auto
  from st obtain sh1 where s1: "conflicts b = conflicts a @ sh1" "\<forall>x\<in>set sh1. is_shortfall x"
    by (auto simp: subject_step_def short_for_def split: if_splits)
  from Cons.IH[OF rest] obtain sh2 where s2: "conflicts c = conflicts b @ sh2"
    "\<forall>x\<in>set sh2. is_shortfall x" by blast
  show ?case using s1 s2 by (intro exI[of _ "sh1 @ sh2"]) auto
qed

lemma missing_validation:
  "\<forall>c\<in>set va. is_validation c \<Longrightarrow> missing_sessions (cs @ va) u = missing_sessions cs u"
proof -
  assume a: "\<forall>c\<in>set va. is_validation c"
  have "missing_of u c = []" if "is_validation c" for c using that by (cases c) simp_all
  with a have "concat (map (missing_of u) va) = []" by simp
  then show ?thesis by (simp add: missing_sessions_def)
qed

lemma recount_shortfall:
  "\<forall>c\<in>set sh. is_shortfall c \<Longrightarrow> recount_sessions (sh @ va) u = recount_sessions va u"
proof -
  assume a: "\<forall>c\<in>set sh. is_shortfall c"
  have "recount_of u c = []" if "is_shortfall c" for c using that by (cases c) simp_all
  with a have "concat (map (recount_of u) sh) = []" by simp
  then show ?thesis by (simp add: recount_sessions_def)
qed

lemma shape_key:
  assumes "placed_shape e" "item (e_subject e) = Some subj"
  shows "(subj, get_default (e_semester e) General) = (Some (s_name u), semester_of u) \<longleftrightarrow>
         from_subject u e"
proof -
  from assms(1) obtain sem where sem: "e_semester e = present sem"
    by (auto simp: placed_shape_def)
  have g: "get_default (present sem) General = sem"
    by (cases sem) (simp_all add: get_default_def present_def)
  have p: "present sem = present (semester_of u) \<longleftrightarrow> sem = semester_of u"
    using present_inj by auto
  from assms(2) show ?thesis
    by (cases "e_subject e") (auto simp: item_def from_subject_def sem g p)
qed

lemma count_occurrences_count:
  "\<forall>e\<in>set es. placed_shape e \<Longrightarrow> count_occurrences es m = Some occ \<Longrightarrow>
   occurrences_of occ u = occurrences_of m u + placed_count es u"
proof (induction es arbitrary: m)
  case Nil
  then show ?case by (simp add: placed_count_def)
next
  case (Cons e es)
  from Cons.prems(1) have sh: "placed_shape e" by simp
  then obtain subj where it: "item (e_subject e) = Some subj"
    using item_Some by (auto simp: placed_shape_def)
  define key where "key = (subj, get_default (e_semester e) General)"
  define m' where "m' = AList.update key
      ((case map_of m key of None \<Rightarrow> 0 | Some n \<Rightarrow> n) + 1) m"
  from Cons.prems(2) it have run: "count_occurrences es m' = Some occ"
    by (simp add: Let_def key_def m'_def)
  have step: "occurrences_of m' u = occurrences_of m u + (if from_subject u e then 1 else 0)"
    using shape_key[OF sh it, of u]
    by (auto simp: occurrences_of_def m'_def update_conv' key_def)
  from Cons.IH[OF _ run] Cons.prems(1) have "occurrences_of occ u =
      occurrences_of m' u + placed_count es u" by simp
  with step show ?case by (simp add: placed_count_def)
qed

lemma validate_subjects_recount:
  "\<exists>va. validate_subjects ss occ self = self\<lparr>conflicts := conflicts self @ va\<rparr> \<and>
        (\<forall>c\<in>set va. is_validation c) \<and>
        (\<forall>u. recount_sessions va u =
           map (\<lambda>v. sessions_required v - occurrences_of occ u)
             (filter (\<lambda>v. occurrences_of occ u < sessions_required v) (sharing ss u)))"
proof (induction ss arbitrary: self)
  case Nil
  show ?case by (rule exI[of _ "[]"]) (simp add: recount_sessions_def sharing_def)
next
  case (Cons w ss)
  define count where "count = occurrences_of occ w"
  have cu: "occurrences_of occ u = count" if "subject_key w = subject_key u" for u
    using that by (simp add: count_def occurrences_of_def subject_key_def)
  show ?case
  proof (cases "count < sessions_required w")
    case False
    from Cons.IH[of self] obtain va where
      va: "validate_subjects ss occ self = self\<lparr>conflicts := conflicts self @ va\<rparr>"
      and val: "\<forall>c\<in>set va. is_validation c"
      and rc: "\<And>u. recount_sessions va u =
           map (\<lambda>v. sessions_required v - occurrences_of occ u)
             (filter (\<lambda>v. occurrences_of occ u < sessions_required v) (sharing ss u))"
      by blast
    have "validate_subjects (w # ss) occ self = self\<lparr>conflicts := conflicts self @ va\<rparr>"
      using False va by (simp add: Let_def count_def occurrences_of_def)
    moreover have "recount_sessions va u =
           map (\<lambda>v. sessions_required v - occurrences_of occ u)
             (filter (\<lambda>v. occurrences_of occ u < sessions_required v) (sharing (w # ss) u))"
      for u using False rc[of u] cu[of u] by (simp add: sharing_def)
    ultimately show ?thesis using val by blast
  next
    case True
    define x where "x = Validation (semester_of w) (s_name w) (sessions_required w - count)"
    from Cons.IH[of "self\<lparr>conflicts := conflicts self @ [x]\<rparr>"] obtain va where
      va: "validate_subjects ss occ (self\<lparr>conflicts := conflicts self @ [x]\<rparr>) =
        self\<lparr>conflicts := conflicts self @ [x]\<rparr>\<lparr>conflicts := (conflicts self @ [x]) @ va\<rparr>"
      and val: "\<forall>c\<in>set va. is_validation c"
      and rc: "\<And>u. recount_sessions va u =
           map (\<lambda>v. sessions_required v - occurrences_of occ u)
             (filter (\<lambda>v. occurrences_of occ u < sessions_required v) (sharing ss u))"
      by auto
    have "validate_subjects (w # ss) occ self = self\<lparr>conflicts := conflicts self @ (x # va)\<rparr>"
      using True va by (simp add: Let_def count_def occurrences_of_def x_def)
    moreover have "\<forall>c\<in>set (x # va). is_validation c" using val by (simp add: x_def)
    moreover have "recount_sessions (x # va) u =
           map (\<lambda>v. sessions_required v - occurrences_of occ u)
             (filter (\<lambda>v. occurrences_of occ u < sessions_required v) (sharing (w # ss) u))"
      for u
    proof (cases "subject_key w = subject_key u")
      case k: True
      then have "recount_of u x = [sessions_required w - count]"
        by (simp add: x_def subject_key_def)
      with k True rc[of u] cu[OF k] show ?thesis
        by (simp add: sharing_def recount_sessions_def)
    next
      case k: False
      then have "recount_of u x = []" by (auto simp: x_def subject_key_def)
      with k rc[of u] show ?thesis by (simp add: sharing_def recount_sessions_def)
    qed
    ultimately show ?thesis by blast
  qed
qed

lemma generate_counted:
  "\<exists>self' r rounds va. generate self = Some (self', r) \<and>
     list_all2 counted_round (subjects self) rounds \<and>
     r_timetable r = concat (map fst rounds) \<and>
     r_conflicts r = concat (map snd rounds) @ va \<and> (\<forall>c\<in>set va. is_validation c) \<and>
     (\<forall>u. placed_count (r_timetable r) u + sum_list (missing_sessions (r_conflicts r) u) =
            sum_list (map (\<lambda>v. max 0 (sessions_required v)) (sharing (subjects self) u)) \<and>
          length (missing_sessions (r_conflicts r) u) \<le> length (sharing (subjects self) u) \<and>
          recount_sessions (r_conflicts r) u =
            map (\<lambda>v. sessions_required v - placed_count (r_timetable r) u)
              (filter (\<lambda>v. placed_count (r_timetable r) u < sessions_required v)
                 (sharing (subjects self) u)) \<and>
          (sharing (subjects self) u = [u] \<longrightarrow>
             missing_sessions (r_conflicts r) u =
               (if placed_count (r_timetable r) u < sessions_required u
                then [sessions_required u - placed_count (r_timetable r) u] else [])))"
proof -
  from generate_detail[of self] obtain self2 va occ where
    g: "generate self = Some (self2\<lparr>conflicts := conflicts self2 @ va\<rparr>,
          \<lparr>r_timetable = timetable self2, r_conflicts = conflicts self2 @ va\<rparr>)"
    and st: "steps (subjects self) (self\<lparr>timetable := [], conflicts := []\<rparr>) self2"
    and shapes: "\<forall>e\<in>set (timetable self2). placed_shape e"
    and occ: "count_occurrences (timetable self2) [] = Some occ"
    and v: "validate_subjects (subjects self) occ self2 =
        self2\<lparr>conflicts := conflicts self2 @ va\<rparr>" by blast
  from validate_subjects_recount[of "subjects self" occ self2] v obtain va' where
    "self2\<lparr>conflicts := conflicts self2 @ va\<rparr> = self2\<lparr>conflicts := conflicts self2 @ va'\<rparr>"
    and val': "\<forall>c\<in>set va'. is_validation c"
    and rc': "\<And>u. recount_sessions va' u =
           map (\<lambda>v. sessions_required v - occurrences_of occ u)
             (filter (\<lambda>v. occurrences_of occ u < sessions_required v)
                (sharing (subjects self) u))" by auto
  then have "conflicts (self2\<lparr>conflicts := conflicts self2 @ va\<rparr>) =
      conflicts (self2\<lparr>conflicts := conflicts self2 @ va'\<rparr>)" by simp
  then have eq: "va' = va" by simp
  note val = val'[unfolded eq] and rc = rc'[unfolded eq]
  have cnt: "occurrences_of occ u = placed_count (timetable self2) u" for u
    using count_occurrences_count[OF shapes occ, of u] by (simp add: occurrences_of_def)
  from steps_shortfalls[OF st] have sh: "\<forall>x\<in>set (conflicts self2). is_shortfall x" by auto
  define r where "r = \<lparr>r_timetable = timetable self2, r_conflicts = conflicts self2 @ va\<rparr>"
  have rt: "r_timetable r = timetable self2" and rcf: "r_conflicts r = conflicts self2 @ va"
    by (simp_all add: r_def)
  have counted: "placed_count (r_timetable r) u +
        sum_list (missing_sessions (r_conflicts r) u) =
        sum_list (map (\<lambda>v. max 0 (sessions_required v)) (sharing (subjects self) u)) \<and>
      length (missing_sessions (r_conflicts r) u) \<le> length (sharing (subjects self) u) \<and>
      recount_sessions (r_conflicts r) u =
        map (\<lambda>v. sessions_required v - placed_count (r_timetable r) u)
          (filter (\<lambda>v. placed_count (r_timetable r) u < sessions_required v)
             (sharing (subjects self) u)) \<and>
      (sharing (subjects self) u = [u] \<longrightarrow>
         missing_sessions (r_conflicts r) u =
           (if placed_count (r_timetable r) u < sessions_required u
            then [sessions_required u - placed_count (r_timetable r) u] else []))" for u
  proof -
    from steps_counted[OF st, of u] have a:
      "placed_count (timetable self2) u + sum_list (missing_sessions (conflicts self2) u) =
        sum_list (map (\<lambda>v. max 0 (sessions_required v)) (sharing (subjects self) u))"
      "length (missing_sessions (conflicts self2) u) \<le> length (sharing (subjects self) u)"
      by (simp_all add: placed_count_def missing_sessions_def)
    have b: "missing_sessions (conflicts self2) u =
           (if placed_count (timetable self2) u < sessions_required u
            then [sessions_required u - placed_count (timetable self2) u] else [])"
      if "sharing (subjects self) u = [u]"
      using steps_single[OF st that] by (simp add: placed_count_def missing_sessions_def)
    show ?thesis
      unfolding rt rcf
      using a b by (simp add: missing_validation[OF val] recount_shortfall[OF sh] rc cnt)
  qed
  from steps_rounds[OF st] obtain rounds where
    rs: "list_all2 counted_round (subjects self) rounds"
    and tt: "timetable self2 = concat (map fst rounds)"
    and cf: "conflicts self2 = concat (map snd rounds)"
    by auto
  have g': "generate self = Some (self2\<lparr>conflicts := conflicts self2 @ va\<rparr>, r)"
    using g by (simp add: r_def)
  have "r_timetable r = concat (map fst rounds)" "r_conflicts r = concat (map snd rounds) @ va"
    by (simp_all add: rt rcf tt cf)
  with g' rs val counted show ?thesis by blast
qed

section \<open>Department codes in closed form\<close>

lemma split_ws_first:
  "py_first (split_ws cur s) =
     (if cur = [] then (if \<forall>c\<in>set s. is_space c then None else Some (first_token s))
      else Some (cur @ takeWhile (\<lambda>c. \<not> is_space c) s))"
proof (induction s arbitrary: cur)
  case Nil
  then show ?case by (simp add: py_first_def first_token_def)
next
  case (Cons c s)
  show ?case
  proof (cases "is_space c")
    case True
    then show ?thesis by (simp add: Cons.IH first_token_def) (simp add: py_first_def)
  next
    case False
    then show ?thesis by (simp add: Cons.IH first_token_def)
  qed
qed

lemma strip_nonblank: "py_strip d \<noteq> [] \<Longrightarrow> \<exists>c\<in>set (py_strip d). \<not> is_space c"
proof -
  assume a: "py_strip d \<noteq> []"
  define z where "z = dropWhile is_space (rev (dropWhile is_space d))"
  from a have z: "z \<noteq> []" by (simp add: py_strip_def z_def)
  then have "\<not> is_space (hd z)" unfolding z_def by (rule hd_dropWhile)
  moreover have "hd z \<in> set (py_strip d)" using z by (simp add: py_strip_def z_def[symmetric])
  ultimately show ?thesis by blast
qed

lemma first_of_split:
  "py_strip d \<noteq> [] \<Longrightarrow> py_first (py_split (py_strip d)) = Some (first_token (py_strip d))"
  using strip_nonblank[of d] by (auto simp: py_split_def split_ws_first)

lemma find_code_separators:
  "find_code separators raw =
     Some (case filter (\<lambda>sep. sep \<in> set raw) separators of
             sep # _ \<Rightarrow> Some (py_strip (takeWhile (\<lambda>c. c \<noteq> sep) raw))
           | [] \<Rightarrow> None)"
  by (simp add: separators_def py_split1_def py_first_def)

lemma code_of_raw:
  assumes "py_strip d \<noteq> []"
  shows "find_code separators (py_strip d) \<bind>
           (\<lambda>code0. case code0 of None \<Rightarrow> py_first (py_split (py_strip d)) | Some c \<Rightarrow> Some c) =
         Some (dept_code d)"
  by (cases "filter (\<lambda>sep. sep \<in> set (py_strip d)) separators")
    (simp_all add: find_code_separators dept_code_def Let_def first_of_split[OF assms])

lemma dept_code_blank: "py_strip d = [] \<Longrightarrow> dept_code d = []"
  by (simp add: dept_code_def Let_def first_token_def)

lemma codes_loop_eq:
  "codes_loop ds codes = Some (codes @ filter (\<lambda>c. c \<noteq> []) (map dept_code ds))"
proof (induction ds arbitrary: codes)
  case Nil
  then show ?case by simp
next
  case (Cons d ds)
  show ?case
  proof (cases "py_strip d = []")
    case True
    then show ?thesis by (simp add: Cons.IH dept_code_blank)
  next
    case False
    from code_of_raw[OF False] show ?thesis
      by (auto simp: Let_def False Cons.IH split: Option.bind_splits)
  qed
qed

lemma remdups_drop_seen: "c \<in> set ys \<Longrightarrow> remdups (xs @ c # ys) = remdups (xs @ ys)"
  by (induction xs) auto

lemma uniq_loop_eq:
  "distinct uniq \<Longrightarrow> uniq_loop cs (set uniq) uniq = first_seen (uniq @ cs)"
proof (induction cs arbitrary: uniq)
  case Nil
  then show ?case by (simp add: first_seen_def distinct_remdups_id)
next
  case (Cons c cs)
  show ?case
  proof (cases "c \<in> set uniq")
    case True
    then show ?thesis using Cons by (simp add: first_seen_def remdups_drop_seen)
  next
    case False
    then have "distinct (uniq @ [c])" using Cons.prems by simp
    from Cons.IH[OF this] False show ?thesis by simp
  qed
qed

section \<open>Evaluating the examples\<close>

lemmas eval_defs =
  ustr_def General_def is_space_def py_strip_def py_lower_def py_split_def py_split1_def
  py_first_def item_def get_default_def present_def semester_of_def sessions_required_def
  is_teacher_available_def dict_comp_def new_grid_def grid_get_def grid_item_def grid_mark_def
  can_place_def separators_def extract_all_dept_codes_def bump_load_def place_entry_def
  load_get_def rank_slots_def for_each_def rank_slots_for_semester_def teacher_load_def
  teachers_for_def all_candidate_assignments_def pass1_action_def teacher_free_def
  classroom_free_def reasons_at_def build_reasons_def process_subject_def classrooms_of_def
  subjects_of_def scan_group_def scan_conflicts_def detect_conflicts_def cohorts_def
  init_locals_in_def init_locals_def generate_in_def generate_def Let_def card_set

lemmas ex_defs =
  ex_ann_def ex_bob_def ex_math_def ex_art_def ex_gen_def ex_entry_math_def ex_entry_art_def
  ex_shortfall_def ex_validation_def ex_result_def ex_gen_again_def ex_null_def ex_absent_def
  ex_null_gen_def ex_two_def ex_one_day_def ex_st0_def ex_first_def ex_second_def
  ex_dash_def ex_edit_a_def ex_edit_b_def ex_edited_def ex_order_def ex_order_again_def
  ex_twin_a_def ex_twin_b_def ex_twin_gen_def ex_twin_result_def ex_neg_def ex_neg_gen_def
  ex_mixed_gen_def

lemma ex_gen_result: "map_option snd (generate ex_gen) = Some ex_result"
  by (simp add: eval_defs ex_defs)

lemma ex_twin_gen_result: "map_option snd (generate ex_twin_gen) = Some ex_twin_result"
  by (simp add: eval_defs ex_defs)


section \<open>The claims\<close>

subsection \<open>C1: no teacher, classroom or cohort is double-booked\<close>

text \<open>
  Claim C1. For every input \<open>generate\<close> returns, and in the entry list it returns no two
  entries of the same day and slot share the teacher, a classroom or the cohort; the list
  that \<open>detect_conflicts\<close> builds from this entry list is empty.
\<close>

theorem generated_timetable_has_no_collisions:
  "\<exists>self' r. generate self = Some (self', r) \<and> scan_conflicts (r_timetable r) = Some [] \<and>
     (\<forall>i j. i < j \<and> j < length (r_timetable r) \<longrightarrow>
            \<not> clash (r_timetable r ! i) (r_timetable r ! j))"
proof -
  from generate_ok[of self] obtain self2 L va where
    g: "generate self = Some (self2\<lparr>conflicts := conflicts self2 @ va\<rparr>,
          \<lparr>r_timetable = timetable self2, r_conflicts = conflicts self2 @ va\<rparr>)"
    and inv: "Inv self2 L" and scan: "scan_conflicts (timetable self2) = Some []" by blast
  from inv have "sorted_wrt (\<lambda>a b. \<not> clash a b) (timetable self2)" by (simp add: Inv_def)
  then have "\<forall>i j. i < j \<and> j < length (timetable self2) \<longrightarrow>
      \<not> clash (timetable self2 ! i) (timetable self2 ! j)"
    by (simp add: sorted_wrt_iff_nth_less)
  with g scan show ?thesis by simp
qed

text \<open>
  Claim C1 at the example: the two committed entries are in the same cell (Mon, 9) and do
  not collide.
\<close>

theorem generated_timetable_has_no_collisions_witness:
  "\<exists>self' r. generate ex_gen = Some (self', r) \<and> scan_conflicts (r_timetable r) = Some [] \<and>
     (0::nat) < 1 \<and> 1 < length (r_timetable r) \<and>
     e_day (r_timetable r ! 0) = e_day (r_timetable r ! 1) \<and>
     e_time_slot (r_timetable r ! 0) = e_time_slot (r_timetable r ! 1) \<and>
     \<not> clash (r_timetable r ! 0) (r_timetable r ! 1)"
proof -
  from generated_timetable_has_no_collisions[of ex_gen] obtain self' r where
    g: "generate ex_gen = Some (self', r)" and s: "scan_conflicts (r_timetable r) = Some []"
    and n: "\<forall>i j. i < j \<and> j < length (r_timetable r) \<longrightarrow>
              \<not> clash (r_timetable r ! i) (r_timetable r ! j)" by blast
  from g ex_gen_result have r: "r = ex_result" by simp
  have len: "1 < length (r_timetable r)" by (simp add: r ex_result_def)
  with n have "\<not> clash (r_timetable r ! 0) (r_timetable r ! 1)" by simp
  moreover have "e_day (r_timetable r ! 0) = e_day (r_timetable r ! 1)"
    "e_time_slot (r_timetable r ! 0) = e_time_slot (r_timetable r ! 1)"
    by (simp_all add: r ex_result_def ex_entry_math_def ex_entry_art_def)
  ultimately show ?thesis using g s len by simp
qed

subsection \<open>C2: generation is deterministic\<close>

text \<open>
  Claim C2. Two invocations on generator objects with the same teacher, subject, classroom,
  day and slot sequences return the same entry list and the same conflict list, whatever
  their \<open>semesters\<close> field, whatever \<open>timetable\<close> and \<open>conflicts\<close> an earlier call left in
  them, and in whatever order each invocation iterates the set of cohorts (the one choice
  the runtime makes); both return what \<open>generate\<close> returns.
\<close>

theorem generate_deterministic:
  assumes "teachers a = teachers b" and "subjects a = subjects b"
    and "classrooms a = classrooms b" and "days a = days b" and "time_slots a = time_slots b"
    and "set o1 = set (cohorts (subjects a))" and "set o2 = set (cohorts (subjects b))"
  shows "map_option snd (generate_in o1 a) = map_option snd (generate_in o2 b) \<and>
         map_option snd (generate_in o2 b) = map_option snd (generate b)"
proof -
  have "generate_in o1 a = generate_in o2 a"
    using assms(2,6,7) by (intro generate_in_order) simp
  moreover have "map_option snd (generate_in o2 a) = map_option snd (generate_in o2 b)"
    using assms(1,2,3,5,4) by (rule generate_in_inputs_only)
  moreover have "generate_in o2 b = generate b"
    unfolding generate_def using assms(7) by (intro generate_in_order)
  ultimately show ?thesis by simp
qed

text \<open>
  Claim C2 at the example: a second object that differs in \<open>semesters\<close>, \<open>timetable\<close> and
  \<open>conflicts\<close>, run with another order of the cohorts, returns the same result.
\<close>

theorem generate_deterministic_witness:
  "teachers ex_gen = teachers ex_gen_again \<and> subjects ex_gen = subjects ex_gen_again \<and>
   classrooms ex_gen = classrooms ex_gen_again \<and> days ex_gen = days ex_gen_again \<and>
   time_slots ex_gen = time_slots ex_gen_again \<and>
   set ex_order = set (cohorts (subjects ex_gen)) \<and>
   set ex_order_again = set (cohorts (subjects ex_gen_again)) \<and>
   ex_order \<noteq> ex_order_again \<and>
   semesters ex_gen \<noteq> semesters ex_gen_again \<and> timetable ex_gen \<noteq> timetable ex_gen_again \<and>
   map_option snd (generate_in ex_order ex_gen) =
     map_option snd (generate_in ex_order_again ex_gen_again) \<and>
   map_option snd (generate_in ex_order_again ex_gen_again) = Some ex_result"
proof -
  have o: "set ex_order = set (cohorts (subjects ex_gen))"
    "set ex_order_again = set (cohorts (subjects ex_gen_again))"
    by (auto simp: eval_defs ex_defs)
  have on: "ex_order \<noteq> ex_order_again" by (simp add: ex_order_def ex_order_again_def)
  have same: "teachers ex_gen = teachers ex_gen_again" "subjects ex_gen = subjects ex_gen_again"
    "classrooms ex_gen = classrooms ex_gen_again" "days ex_gen = days ex_gen_again"
    "time_slots ex_gen = time_slots ex_gen_again"
    by (simp_all add: ex_gen_again_def)
  have diff: "semesters ex_gen \<noteq> semesters ex_gen_again"
    "timetable ex_gen \<noteq> timetable ex_gen_again"
    by (simp_all add: ex_gen_again_def ex_gen_def)
  have "map_option snd (generate ex_gen_again) = Some ex_result"
    by (simp add: eval_defs ex_defs)
  with generate_deterministic[OF same o] same diff o on show ?thesis by simp
qed

subsection \<open>C3: the order of the conflict list\<close>



subsection \<open>C4: the default of sessions_per_week\<close>

text \<open>
  Claim C4 as stated fails for \<open>null\<close>: \<open>subject.get('sessions_per_week', 2) or 0\<close> is \<open>0\<close>
  when the key is present with \<open>null\<close>. With a free teacher, a classroom and two days, the
  subject gets no entry and no conflict record, where the same subject without the key gets
  two entries.
\<close>

theorem null_sessions_counterexample:
  "s_sessions_per_week ex_null = Null \<and> sessions_required ex_null \<noteq> 2 \<and>
   map_option snd (generate ex_null_gen) = Some \<lparr>r_timetable = [], r_conflicts = []\<rparr> \<and>
   map_option (length \<circ> r_timetable \<circ> snd) (generate (ex_null_gen\<lparr>subjects := [ex_absent]\<rparr>)) =
     Some 2"
  by (simp add: eval_defs ex_defs)

text \<open>
  Claim C4, amended. A subject without the key \<open>sessions_per_week\<close> requires 2 sessions,
  and \<open>generate\<close> returns what it returns when the key holds 2, whatever subjects come
  before and after it. A subject whose \<open>sessions_per_week\<close> is \<open>null\<close> requires 0:
  \<open>generate\<close> returns what it returns when the key holds 0; the round of the subject in the
  placement loop, run in the state that the rounds of the subjects before it leave, returns
  that state as it is (no entry, no conflict record); and the recount appends no record for
  the subject.
\<close>

theorem sessions_required_default:
  "(s_sessions_per_week u = Absent \<longrightarrow>
      sessions_required u = 2 \<and>
      map_option snd (generate (self\<lparr>subjects := pre @ u # post\<rparr>)) =
        map_option snd
          (generate (self\<lparr>subjects := pre @ u\<lparr>s_sessions_per_week := Val 2\<rparr> # post\<rparr>))) \<and>
   (s_sessions_per_week u = Null \<longrightarrow>
      sessions_required u = 0 \<and>
      map_option snd (generate (self\<lparr>subjects := pre @ u # post\<rparr>)) =
        map_option snd
          (generate (self\<lparr>subjects := pre @ u\<lparr>s_sessions_per_week := Val 0\<rparr> # post\<rparr>)) \<and>
      (\<exists>g L. subjects_loop pre (self\<lparr>subjects := pre @ u # post, timetable := [], conflicts := []\<rparr>)
                (init_locals (self\<lparr>subjects := pre @ u # post, timetable := [],
                                   conflicts := []\<rparr>)) = Some (g, L) \<and>
              process_subject g L u = Some (g, L)) \<and>
      validate_subjects (u # rest) occ self' = validate_subjects rest occ self')"
proof -
  have same: "map_option snd (generate (self\<lparr>subjects := pre @ u # post\<rparr>)) =
        map_option snd
          (generate (self\<lparr>subjects := pre @ u\<lparr>s_sessions_per_week := Val n\<rparr> # post\<rparr>))"
    if "sessions_required u = sessions_required (u\<lparr>s_sessions_per_week := Val n\<rparr>)" for n
  proof -
    have "same_demand u (u\<lparr>s_sessions_per_week := Val n\<rparr>)"
      using that by (simp add: same_demand_def)
    then have "list_all2 same_demand (pre @ u # post)
        (pre @ u\<lparr>s_sessions_per_week := Val n\<rparr> # post)"
      by (intro list_all2_appendI list_all2_refl list.rel_intros same_demand_refl)
    then show ?thesis by (rule generate_same_demand)
  qed
  have two: "sessions_required u = 2" if "s_sessions_per_week u = Absent"
    using that by (simp add: sessions_required_def get_default_def)
  have zero: "sessions_required u = 0" if "s_sessions_per_week u = Null"
    using that by (simp add: sessions_required_def get_default_def)
  have round: "\<exists>g L. subjects_loop pre
        (self\<lparr>subjects := pre @ u # post, timetable := [], conflicts := []\<rparr>)
        (init_locals (self\<lparr>subjects := pre @ u # post, timetable := [], conflicts := []\<rparr>)) =
          Some (g, L) \<and> process_subject g L u = Some (g, L)"
    if "sessions_required u = 0"
  proof -
    define start where
      "start = self\<lparr>subjects := pre @ u # post, timetable := [], conflicts := []\<rparr>"
    have i: "Inv start (init_locals start)"
      using Inv_init[of "self\<lparr>subjects := pre @ u # post\<rparr>"] by (simp add: start_def)
    have "set pre \<subseteq> set (subjects start)" by (auto simp: start_def)
    from subjects_loop_ok[OF i this] obtain g L where
      l: "subjects_loop pre start (init_locals start) = Some (g, L)" and "Inv g L" by blast
    then have "grids_ok g L" by (simp add: Inv_def)
    from process_subject_zero[OF this, of u] that l show ?thesis
      unfolding start_def by auto
  qed
  have a: "sessions_required (u\<lparr>s_sessions_per_week := Val 2\<rparr>) = 2"
    "sessions_required (u\<lparr>s_sessions_per_week := Val 0\<rparr>) = 0"
    by (simp_all add: sessions_required_def get_default_def)
  show ?thesis
    using two zero same[of 2] same[of 0] round a by (simp add: recount_zero)
qed

text \<open>
  Claim C4, amended, at the example: the subject without the key gets its two entries, the
  round of the subject with \<open>null\<close> then changes nothing, and the result has two entries
  and no conflict record.
\<close>

theorem sessions_required_default_witness:
  "s_sessions_per_week ex_absent = Absent \<and> sessions_required ex_absent = 2 \<and>
   map_option snd (generate (ex_null_gen\<lparr>subjects := [] @ ex_absent # [ex_null]\<rparr>)) =
     map_option snd (generate (ex_null_gen\<lparr>subjects :=
       [] @ ex_absent\<lparr>s_sessions_per_week := Val 2\<rparr> # [ex_null]\<rparr>)) \<and>
   s_sessions_per_week ex_null = Null \<and> sessions_required ex_null = 0 \<and>
   map_option snd (generate (ex_null_gen\<lparr>subjects := [ex_absent] @ ex_null # []\<rparr>)) =
     map_option snd (generate (ex_null_gen\<lparr>subjects :=
       [ex_absent] @ ex_null\<lparr>s_sessions_per_week := Val 0\<rparr> # []\<rparr>)) \<and>
   (\<exists>g L. subjects_loop [ex_absent]
             (ex_null_gen\<lparr>subjects := [ex_absent] @ ex_null # [], timetable := [],
                           conflicts := []\<rparr>)
             (init_locals (ex_null_gen\<lparr>subjects := [ex_absent] @ ex_null # [], timetable := [],
                                        conflicts := []\<rparr>)) = Some (g, L) \<and>
           length (timetable g) = 2 \<and> process_subject g L ex_null = Some (g, L)) \<and>
   validate_subjects (ex_null # []) [] ex_null_gen = validate_subjects [] [] ex_null_gen \<and>
   map_option (length \<circ> r_timetable \<circ> snd) (generate ex_mixed_gen) = Some 2 \<and>
   map_option (r_conflicts \<circ> snd) (generate ex_mixed_gen) = Some []"
proof -
  have a: "s_sessions_per_week ex_absent = Absent" and n: "s_sessions_per_week ex_null = Null"
    by (simp_all add: ex_absent_def ex_null_def)
  note first = sessions_required_default[where u = ex_absent and self = ex_null_gen
      and pre = "[]" and post = "[ex_null]" and rest = "[]" and occ = "[]"
      and self' = ex_null_gen]
  note second = sessions_required_default[where u = ex_null and self = ex_null_gen
      and pre = "[ex_absent]" and post = "[]" and rest = "[]" and occ = "[]"
      and self' = ex_null_gen]
  from second n obtain g L where
    l: "subjects_loop [ex_absent]
             (ex_null_gen\<lparr>subjects := [ex_absent] @ ex_null # [], timetable := [],
                           conflicts := []\<rparr>)
             (init_locals (ex_null_gen\<lparr>subjects := [ex_absent] @ ex_null # [], timetable := [],
                                        conflicts := []\<rparr>)) = Some (g, L)"
    and p: "process_subject g L ex_null = Some (g, L)" by blast
  have "map_option (length \<circ> timetable \<circ> fst) (subjects_loop [ex_absent]
             (ex_null_gen\<lparr>subjects := [ex_absent] @ ex_null # [], timetable := [],
                           conflicts := []\<rparr>)
             (init_locals (ex_null_gen\<lparr>subjects := [ex_absent] @ ex_null # [], timetable := [],
                                        conflicts := []\<rparr>))) = Some 2"
    by (simp add: eval_defs ex_defs)
  with l have len: "length (timetable g) = 2" by simp
  have m: "map_option (length \<circ> r_timetable \<circ> snd) (generate ex_mixed_gen) = Some 2"
    "map_option (r_conflicts \<circ> snd) (generate ex_mixed_gen) = Some []"
    by (simp_all add: eval_defs ex_defs)
  from l p len have ex: "\<exists>g L. subjects_loop [ex_absent]
             (ex_null_gen\<lparr>subjects := [ex_absent] @ ex_null # [], timetable := [],
                           conflicts := []\<rparr>)
             (init_locals (ex_null_gen\<lparr>subjects := [ex_absent] @ ex_null # [], timetable := [],
                                        conflicts := []\<rparr>)) = Some (g, L) \<and>
           length (timetable g) = 2 \<and> process_subject g L ex_null = Some (g, L)" by blast
  from first a second n ex m show ?thesis by blast
qed

subsection \<open>C5: when the first pass skips a candidate\<close>




subsection \<open>C6: the department code of a raw string\<close>

text \<open>
  Claim C6 as stated fails: the code tries the separator kinds in the order en dash,
  em dash, hyphen and cuts at the first kind the string contains, not at the first separator
  in the string. For a hyphen followed by an en dash the code keeps the hyphen in the code.
\<close>

theorem first_separator_counterexample:
  "extract_all_dept_codes ex_dash = [ustr ''CS-AI''] \<and>
   spec_dept_codes (s_departments ex_dash) = [ustr ''CS''] \<and>
   extract_all_dept_codes ex_dash \<noteq> spec_dept_codes (s_departments ex_dash)"
  by (simp add: eval_defs ex_defs spec_dept_codes_def spec_dept_code_def first_seen_def
      first_token_def)

text \<open>
  Claim C6, amended. For every raw department string: trim it; if it contains an en dash,
  take the trimmed text before the first en dash; else if it contains an em dash, the
  trimmed text before the first em dash; else if it contains a hyphen, the trimmed text
  before the first hyphen; else the first white-space-delimited token. Empty results are
  skipped and duplicates removed, the first occurrence kept.
\<close>

theorem department_codes_rule:
  "extract_all_dept_codes u =
     first_seen (filter (\<lambda>c. c \<noteq> []) (map dept_code (s_departments u)))"
proof (cases "s_departments u = []")
  case True
  then show ?thesis by (simp add: extract_all_dept_codes_def first_seen_def)
next
  case False
  have "uniq_loop cs {} [] = first_seen cs" for cs :: "pystr list"
    using uniq_loop_eq[of "[]" cs] by simp
  with False show ?thesis by (simp add: extract_all_dept_codes_def codes_loop_eq)
qed

text \<open>
  Claim C6, amended, at the example.
\<close>

theorem department_codes_rule_witness:
  "extract_all_dept_codes ex_dash = [ustr ''CS-AI''] \<and>
   first_seen (filter (\<lambda>c. c \<noteq> []) (map dept_code (s_departments ex_dash))) = [ustr ''CS-AI'']"
proof -
  have "extract_all_dept_codes ex_dash = [ustr ''CS-AI'']"
    by (simp add: eval_defs ex_defs)
  with department_codes_rule[of ex_dash] show ?thesis by simp
qed

subsection \<open>C7: placed plus missing is the demand\<close>

text \<open>
  Claim C7 as stated fails when two subjects carry the same name and semester: entries and
  conflict records carry only these two, and the recount counts by them. Two subjects Math
  of semester S1 with one session each, one teacher, one classroom, one day with two slots:
  each round places one entry, the returned timetable has two entries of Math in S1 and no
  conflict record, and 2 + 0 is not the 1 that each of the two subjects requires. It also
  fails for a negative \<open>sessions_per_week\<close>, which \<open>generate\<close> does not refuse: nothing is
  placed, nothing is recorded, and 0 + 0 is not -1.
\<close>

theorem shared_name_counterexample:
  "subjects ex_twin_gen = [ex_twin_a, ex_twin_b] \<and> ex_twin_a \<noteq> ex_twin_b \<and>
   s_name ex_twin_a = s_name ex_twin_b \<and> s_semester ex_twin_a = s_semester ex_twin_b \<and>
   sessions_required ex_twin_a = 1 \<and> sessions_required ex_twin_b = 1 \<and>
   map_option snd (generate ex_twin_gen) = Some ex_twin_result \<and>
   placed_count (r_timetable ex_twin_result) ex_twin_a = 2 \<and>
   missing_sessions (r_conflicts ex_twin_result) ex_twin_a = [] \<and>
   r_conflicts ex_twin_result = [] \<and>
   placed_count (r_timetable ex_twin_result) ex_twin_a +
     sum_list (missing_sessions (r_conflicts ex_twin_result) ex_twin_a) \<noteq>
     sessions_required ex_twin_a \<and>
   sessions_required ex_neg = - 1 \<and>
   map_option snd (generate ex_neg_gen) = Some \<lparr>r_timetable = [], r_conflicts = []\<rparr>"
proof -
  have "map_option snd (generate ex_neg_gen) = Some \<lparr>r_timetable = [], r_conflicts = []\<rparr>"
    by (simp add: eval_defs ex_defs)
  moreover have "placed_count (r_timetable ex_twin_result) ex_twin_a = 2"
    by (simp add: ex_twin_result_def placed_count_def from_subject_def ex_twin_a_def
        semester_of_def get_default_def present_def)
  moreover have "missing_sessions (r_conflicts ex_twin_result) ex_twin_a = []"
    "r_conflicts ex_twin_result = []"
    by (simp_all add: ex_twin_result_def missing_sessions_def)
  moreover have "sessions_required ex_twin_a = 1" "sessions_required ex_twin_b = 1"
    "sessions_required ex_neg = - 1"
    by (simp_all add: sessions_required_def get_default_def ex_twin_a_def ex_twin_b_def
        ex_neg_def)
  moreover have "ex_twin_a \<noteq> ex_twin_b" "s_name ex_twin_a = s_name ex_twin_b"
    "s_semester ex_twin_a = s_semester ex_twin_b" "subjects ex_twin_gen = [ex_twin_a, ex_twin_b]"
    by (simp_all add: ex_twin_a_def ex_twin_b_def ex_twin_gen_def ustr_def)
  ultimately show ?thesis using ex_twin_gen_result by simp
qed

text \<open>
  Claim C7, amended. \<open>generate\<close> returns; its timetable and its shortfall records are
  those of the rounds of the placement loop, one round per subject in order, and the
  records of the recount follow (\<open>va\<close>). In every round the number of entries committed
  plus the \<open>missing_sessions\<close> of the shortfall record of the round (at most one; none
  counts as 0) is the required number of sessions of the subject, or 0 when that number is
  negative. For a subject \<open>u\<close> whose name and semester no other subject carries, the
  same holds of the entries and the shortfall records under its name and semester in the
  returned lists, and the recount repeats the \<open>missing_sessions\<close> of the shortfall record:
  one record of the recount when there is a shortfall record, none otherwise, so only one of
  the two is counted. In general the entries and the shortfall records under a name and
  semester add up to the required numbers of the subjects that carry them, and the recount
  appends, for each of these subjects that requires more than the number of entries under
  the pair, one record with the difference.
\<close>

theorem placed_plus_missing_is_required:
  "\<exists>self' r rounds va. generate self = Some (self', r) \<and>
     list_all2 counted_round (subjects self) rounds \<and>
     r_timetable r = concat (map fst rounds) \<and>
     r_conflicts r = concat (map snd rounds) @ va \<and> (\<forall>c\<in>set va. is_validation c) \<and>
     (\<forall>u. (sharing (subjects self) u = [u] \<longrightarrow>
             placed_count (r_timetable r) u + sum_list (missing_sessions (r_conflicts r) u) =
               max 0 (sessions_required u) \<and>
             length (missing_sessions (r_conflicts r) u) \<le> 1 \<and>
             recount_sessions (r_conflicts r) u = missing_sessions (r_conflicts r) u) \<and>
          placed_count (r_timetable r) u + sum_list (missing_sessions (r_conflicts r) u) =
            sum_list (map (\<lambda>v. max 0 (sessions_required v)) (sharing (subjects self) u)) \<and>
          length (missing_sessions (r_conflicts r) u) \<le> length (sharing (subjects self) u) \<and>
          recount_sessions (r_conflicts r) u =
            map (\<lambda>v. sessions_required v - placed_count (r_timetable r) u)
              (filter (\<lambda>v. placed_count (r_timetable r) u < sessions_required v)
                 (sharing (subjects self) u)))"
proof -
  from generate_counted[of self] obtain self' r rounds va where
    g: "generate self = Some (self', r)"
    and rs: "list_all2 counted_round (subjects self) rounds"
      "r_timetable r = concat (map fst rounds)"
      "r_conflicts r = concat (map snd rounds) @ va" "\<forall>c\<in>set va. is_validation c"
    and c: "\<And>u. placed_count (r_timetable r) u + sum_list (missing_sessions (r_conflicts r) u) =
            sum_list (map (\<lambda>v. max 0 (sessions_required v)) (sharing (subjects self) u)) \<and>
          length (missing_sessions (r_conflicts r) u) \<le> length (sharing (subjects self) u) \<and>
          recount_sessions (r_conflicts r) u =
            map (\<lambda>v. sessions_required v - placed_count (r_timetable r) u)
              (filter (\<lambda>v. placed_count (r_timetable r) u < sessions_required v)
                 (sharing (subjects self) u)) \<and>
          (sharing (subjects self) u = [u] \<longrightarrow>
             missing_sessions (r_conflicts r) u =
               (if placed_count (r_timetable r) u < sessions_required u
                then [sessions_required u - placed_count (r_timetable r) u] else []))"
    by blast
  have "placed_count (r_timetable r) u + sum_list (missing_sessions (r_conflicts r) u) =
          max 0 (sessions_required u) \<and>
        length (missing_sessions (r_conflicts r) u) \<le> 1 \<and>
        recount_sessions (r_conflicts r) u = missing_sessions (r_conflicts r) u"
    if one: "sharing (subjects self) u = [u]" for u
  proof -
    from c[of u] have "placed_count (r_timetable r) u +
        sum_list (missing_sessions (r_conflicts r) u) =
        sum_list (map (\<lambda>v. max 0 (sessions_required v)) (sharing (subjects self) u))"
      and "length (missing_sessions (r_conflicts r) u) \<le> length (sharing (subjects self) u)"
      and "recount_sessions (r_conflicts r) u =
            map (\<lambda>v. sessions_required v - placed_count (r_timetable r) u)
              (filter (\<lambda>v. placed_count (r_timetable r) u < sessions_required v)
                 (sharing (subjects self) u))"
      and "sharing (subjects self) u = [u] \<longrightarrow>
             missing_sessions (r_conflicts r) u =
               (if placed_count (r_timetable r) u < sessions_required u
                then [sessions_required u - placed_count (r_timetable r) u] else [])"
      by blast+
    then show ?thesis unfolding one by simp
  qed
  with g rs c show ?thesis by blast
qed

text \<open>
  Claim C7, amended, at the examples: Math of S1, alone under its name and semester, has
  one entry, one shortfall record and one record of the recount with one missing session
  each, of two required; the two subjects that share Math and S1 have two entries under the
  pair, the sum of what they require.
\<close>

theorem placed_plus_missing_is_required_witness:
  "sharing (subjects ex_gen) ex_math = [ex_math] \<and>
   (\<exists>self' r rounds va. generate ex_gen = Some (self', r) \<and>
      list_all2 counted_round (subjects ex_gen) rounds \<and>
      r_timetable r = concat (map fst rounds) \<and>
      r_conflicts r = concat (map snd rounds) @ va \<and>
      placed_count (r_timetable r) ex_math = 1 \<and>
      missing_sessions (r_conflicts r) ex_math = [1] \<and>
      recount_sessions (r_conflicts r) ex_math = [1] \<and>
      placed_count (r_timetable r) ex_math + sum_list (missing_sessions (r_conflicts r) ex_math) =
        max 0 (sessions_required ex_math)) \<and>
   sessions_required ex_math = 2 \<and>
   sharing (subjects ex_twin_gen) ex_twin_a = [ex_twin_a, ex_twin_b] \<and>
   (\<exists>self' r. generate ex_twin_gen = Some (self', r) \<and>
      placed_count (r_timetable r) ex_twin_a = 2 \<and>
      placed_count (r_timetable r) ex_twin_a +
        sum_list (missing_sessions (r_conflicts r) ex_twin_a) =
        max 0 (sessions_required ex_twin_a) + max 0 (sessions_required ex_twin_b))"
proof -
  have one: "sharing (subjects ex_gen) ex_math = [ex_math]"
    by (simp add: sharing_def ex_gen_def subject_key_def ex_math_def ex_art_def ustr_def)
  have two: "sharing (subjects ex_twin_gen) ex_twin_a = [ex_twin_a, ex_twin_b]"
    by (simp add: sharing_def ex_twin_gen_def subject_key_def ex_twin_a_def ex_twin_b_def
        semester_of_def)
  have req: "sessions_required ex_math = 2"
    by (simp add: sessions_required_def get_default_def ex_math_def)
  from placed_plus_missing_is_required[of ex_gen] obtain self' r rounds va where
    g: "generate ex_gen = Some (self', r)"
    and rs: "list_all2 counted_round (subjects ex_gen) rounds"
      "r_timetable r = concat (map fst rounds)"
      "r_conflicts r = concat (map snd rounds) @ va"
    and c: "\<And>u. sharing (subjects ex_gen) u = [u] \<longrightarrow>
             placed_count (r_timetable r) u + sum_list (missing_sessions (r_conflicts r) u) =
               max 0 (sessions_required u) \<and>
             length (missing_sessions (r_conflicts r) u) \<le> 1 \<and>
             recount_sessions (r_conflicts r) u = missing_sessions (r_conflicts r) u"
    by blast
  from g ex_gen_result have r: "r = ex_result" by simp
  have p: "placed_count (r_timetable r) ex_math = 1"
    by (simp add: r ex_result_def placed_count_def from_subject_def ex_entry_math_def
        ex_entry_art_def ex_math_def semester_of_def get_default_def present_def ustr_def)
  have m: "missing_sessions (r_conflicts r) ex_math = [1]"
    by (simp add: r ex_result_def missing_sessions_def ex_shortfall_def ex_validation_def
        ex_math_def semester_of_def get_default_def)
  from c[of ex_math] one have e:
    "placed_count (r_timetable r) ex_math + sum_list (missing_sessions (r_conflicts r) ex_math) =
       max 0 (sessions_required ex_math)"
    "recount_sessions (r_conflicts r) ex_math = missing_sessions (r_conflicts r) ex_math"
    by simp_all
  have first: "\<exists>self' r rounds va. generate ex_gen = Some (self', r) \<and>
      list_all2 counted_round (subjects ex_gen) rounds \<and>
      r_timetable r = concat (map fst rounds) \<and>
      r_conflicts r = concat (map snd rounds) @ va \<and>
      placed_count (r_timetable r) ex_math = 1 \<and>
      missing_sessions (r_conflicts r) ex_math = [1] \<and>
      recount_sessions (r_conflicts r) ex_math = [1] \<and>
      placed_count (r_timetable r) ex_math + sum_list (missing_sessions (r_conflicts r) ex_math) =
        max 0 (sessions_required ex_math)"
    using g rs p m e by (intro exI[of _ self'] exI[of _ r] exI[of _ rounds] exI[of _ va]) simp
  from placed_plus_missing_is_required[of ex_twin_gen] obtain self2 r2 where
    g2: "generate ex_twin_gen = Some (self2, r2)"
    and c2: "\<And>u. placed_count (r_timetable r2) u +
          sum_list (missing_sessions (r_conflicts r2) u) =
          sum_list (map (\<lambda>v. max 0 (sessions_required v)) (sharing (subjects ex_twin_gen) u))"
    by blast
  from g2 ex_twin_gen_result have r2: "r2 = ex_twin_result" by simp
  have p2: "placed_count (r_timetable r2) ex_twin_a = 2"
    by (simp add: r2 ex_twin_result_def placed_count_def from_subject_def ex_twin_a_def
        semester_of_def get_default_def present_def)
  from c2[of ex_twin_a] have "placed_count (r_timetable r2) ex_twin_a +
        sum_list (missing_sessions (r_conflicts r2) ex_twin_a) =
        max 0 (sessions_required ex_twin_a) + max 0 (sessions_required ex_twin_b)"
    by (simp add: two)
  with g2 p2 have second: "\<exists>self' r. generate ex_twin_gen = Some (self', r) \<and>
      placed_count (r_timetable r) ex_twin_a = 2 \<and>
      placed_count (r_timetable r) ex_twin_a +
        sum_list (missing_sessions (r_conflicts r) ex_twin_a) =
        max 0 (sessions_required ex_twin_a) + max 0 (sessions_required ex_twin_b)"
    by blast
  from one first req two second show ?thesis by blast
qed

subsection \<open>C8: the detector does not raise\<close>

text \<open>
  Claim C8. On a generator object whose entries all carry \<open>day\<close>, \<open>time_slot\<close>, \<open>teacher\<close>
  and \<open>subject\<close>, \<open>detect_conflicts\<close> returns, with the conflicts it found appended; on the
  empty entry list it finds none.
\<close>

theorem detector_never_raises:
  assumes "\<forall>e\<in>set (timetable self). well_formed e"
  shows "\<exists>found. scan_conflicts (timetable self) = Some found \<and>
           detect_conflicts self = Some (self\<lparr>conflicts := conflicts self @ found\<rparr>) \<and>
           (timetable self = [] \<longrightarrow> found = [])"
proof -
  from scan_conflicts_Some[OF assms] obtain found where
    f: "scan_conflicts (timetable self) = Some found" by blast
  have "found = []" if "timetable self = []"
    using f that by (simp add: scan_conflicts_def for_each_def)
  with f show ?thesis by (simp add: detect_conflicts_def)
qed

text \<open>
  Claim C8 at an edited timetable with a \<open>null\<close> subject, an absent semester and a list of
  two classrooms: the detector returns a teacher and a classroom collision.
\<close>

theorem detector_never_raises_witness:
  "well_formed ex_edit_a \<and> well_formed ex_edit_b \<and>
   detect_conflicts ex_edited = Some (ex_edited\<lparr>conflicts :=
     [TeacherConflict (Some (ustr ''Ann'')) (Some (ustr ''Mon'')) (Some (ustr ''9''))
        [Some (ustr ''Math''), None],
      ClassroomConflict (ustr ''R1'') (Some (ustr ''Mon'')) (Some (ustr ''9''))
        [Some (ustr ''Math''), None]]\<rparr>)"
proof -
  have w: "well_formed ex_edit_a" "well_formed ex_edit_b"
    by (simp_all add: well_formed_def ex_edit_a_def ex_edit_b_def)
  then have "\<forall>e\<in>set (timetable ex_edited). well_formed e" by (simp add: ex_edited_def)
  from detector_never_raises[OF this] obtain found where
    f: "scan_conflicts (timetable ex_edited) = Some found"
    and d: "detect_conflicts ex_edited = Some (ex_edited\<lparr>conflicts := conflicts ex_edited @ found\<rparr>)"
    by blast
  have "scan_conflicts (timetable ex_edited) = Some
     [TeacherConflict (Some (ustr ''Ann'')) (Some (ustr ''Mon'')) (Some (ustr ''9''))
        [Some (ustr ''Math''), None],
      ClassroomConflict (ustr ''R1'') (Some (ustr ''Mon'')) (Some (ustr ''9''))
        [Some (ustr ''Math''), None]]"
    by (simp add: eval_defs ex_defs)
  with f d w show ?thesis by (simp add: ex_edited_def)
qed

subsection \<open>C9: the semesters argument is not read\<close>

text \<open>
  Claim C9. The local state of \<open>generate\<close>, with the cohort grid built from the subjects'
  \<open>semester\<close> fields, and the result of \<open>generate\<close> are the same for every \<open>semesters\<close>
  argument.
\<close>

theorem generate_ignores_semesters:
  "init_locals (self\<lparr>semesters := x\<rparr>) = init_locals self \<and>
   map_option snd (generate (self\<lparr>semesters := x\<rparr>)) = map_option snd (generate self)"
  by (simp add: generate_semesters init_locals_unfold)

text \<open>
  Claim C9 at the example, with another \<open>semesters\<close> argument.
\<close>

theorem generate_ignores_semesters_witness:
  "map_option snd (generate (ex_gen\<lparr>semesters := [ustr ''S7'']\<rparr>)) = Some ex_result"
  using generate_ignores_semesters[of "[ustr ''S7'']" ex_gen] ex_gen_result by simp

subsection \<open>C10: one classroom per generated entry\<close>

text \<open>
  Claim C10. Every entry of the timetable that \<open>generate\<close> returns has a \<open>classrooms\<close>
  list of exactly one classroom.
\<close>

theorem generated_entries_have_one_classroom:
  "\<exists>self' r. generate self = Some (self', r) \<and>
     (\<forall>e\<in>set (r_timetable r). \<exists>c. e_classrooms e = Val [c] \<and> length (classrooms_of e) = 1)"
proof -
  from generate_ok[of self] obtain self2 L va where
    g: "generate self = Some (self2\<lparr>conflicts := conflicts self2 @ va\<rparr>,
          \<lparr>r_timetable = timetable self2, r_conflicts = conflicts self2 @ va\<rparr>)"
    and inv: "Inv self2 L" by blast
  have "\<exists>c. e_classrooms e = Val [c] \<and> length (classrooms_of e) = 1"
    if "e \<in> set (timetable self2)" for e
  proof -
    from inv that have "booked L e" by (simp add: Inv_def)
    then show ?thesis by (auto simp: booked_def classrooms_of_def)
  qed
  with g show ?thesis by simp
qed

text \<open>
  Claim C10 at the example.
\<close>

theorem generated_entries_have_one_classroom_witness:
  "\<exists>self' r. generate ex_gen = Some (self', r) \<and> ex_entry_art \<in> set (r_timetable r) \<and>
     e_classrooms ex_entry_art = Val [ustr ''R2''] \<and> length (classrooms_of ex_entry_art) = 1"
proof -
  from generated_entries_have_one_classroom[of ex_gen] obtain self' r where
    g: "generate ex_gen = Some (self', r)"
    and a: "\<forall>e\<in>set (r_timetable r). \<exists>c. e_classrooms e = Val [c] \<and> length (classrooms_of e) = 1"
    by blast
  from g ex_gen_result have r: "r = ex_result" by simp
  then have m: "ex_entry_art \<in> set (r_timetable r)" by (simp add: ex_result_def)
  with a have "length (classrooms_of ex_entry_art) = 1" by blast
  moreover have "e_classrooms ex_entry_art = Val [ustr ''R2'']" by (simp add: ex_entry_art_def)
  ultimately show ?thesis using g m by blast
qed

end
